theory Spec2Isabelle
  imports Main
begin

section \<open>The property graph\<close>

text \<open>
  The program keeps all of its state in a Neo4j property graph and mutates it only through
  Cypher queries. The graph is modelled as a list of nodes (one constructor per label, carrying
  the properties the queries set), a list of relationships (each with its own identity, so that
  parallel relationships are distinct) and a counter that supplies fresh identifiers.
  Lists are kept in creation order; \<open>MATCH\<close> scans them in that order.
\<close>

type_synonym node_id = nat

datatype datetime = DateTime (cal_date: nat) (time_of_day: nat)

datatype message = Message (role: string) (content: string)

datatype message_props =
  MessageProps (msg_position: int) (role_prop: "string option") (content_prop: "string option")

datatype node =
    Org string
  | User string string string
  | InteractionCollection string string
  | MemoryCollection string string
  | Interaction string string string string datetime datetime
  | MessageBlock message_props
  | Memory string string string string string string datetime
  | Date string string nat

datatype rel_type =
    BELONGS_TO | INTERACTIONS_IN | HAS_MEMORIES | HAD_INTERACTION | HAS_OCCURRENCE_ON
  | FIRST_MESSAGE | IS_NEXT | INTERACTION_SOURCE | INCLUDES | MESSAGE_SOURCE | CONTRARY_UPDATE

datatype rel = Rel (rid: nat) (src: node_id) (rtype: rel_type) (dst: node_id)

datatype graph = Graph (nodes: "(node_id \<times> node) list") (rels: "rel list") (fresh: nat)

datatype error = IndexError | KeyError | NullNode | CallbackError

definition node_of :: "graph \<Rightarrow> node_id \<Rightarrow> node option" where
  "node_of g i = map_of (nodes g) i"

subsection \<open>Cypher primitives\<close>

text \<open>\<open>CREATE (n ...)\<close> for one row: the node gets the next fresh identifier.\<close>

definition create_node :: "node \<Rightarrow> graph \<Rightarrow> node_id \<times> graph" where
  "create_node n g = (fresh g, Graph (nodes g @ [(fresh g, n)]) (rels g) (Suc (fresh g)))"

text \<open>\<open>CREATE (a)-[:T]->(b)\<close> for one row: always a new relationship.\<close>

definition create_rel :: "node_id \<Rightarrow> rel_type \<Rightarrow> node_id \<Rightarrow> graph \<Rightarrow> graph" where
  "create_rel a t b g = Graph (nodes g) (rels g @ [Rel (fresh g) a t b]) (Suc (fresh g))"

text \<open>A \<open>CREATE\<close> clause runs once per incoming row, in row order.\<close>

fun create_nodes :: "node list \<Rightarrow> graph \<Rightarrow> node_id list \<times> graph" where
  "create_nodes [] g = ([], g)"
| "create_nodes (n # ns) g =
     (case create_node n g of (i, g1) \<Rightarrow>
        (case create_nodes ns g1 of (is, g2) \<Rightarrow> (i # is, g2)))"

fun create_rels :: "(node_id \<times> rel_type \<times> node_id) list \<Rightarrow> graph \<Rightarrow> graph" where
  "create_rels [] g = g"
| "create_rels ((a, t, b) # xs) g = create_rels xs (create_rel a t b g)"

text \<open>\<open>MERGE (a)-[:T]->(b)\<close> for one row: the relationship is created only when the graph, as
  it is when the row is processed, has none of that type from \<open>a\<close> to \<open>b\<close>.\<close>

definition merge_rel :: "node_id \<Rightarrow> rel_type \<Rightarrow> node_id \<Rightarrow> graph \<Rightarrow> graph" where
  "merge_rel a t b g =
     (if \<exists>r \<in> set (rels g). src r = a \<and> rtype r = t \<and> dst r = b then g
      else create_rel a t b g)"

fun merge_rels :: "(node_id \<times> rel_type \<times> node_id) list \<Rightarrow> graph \<Rightarrow> graph" where
  "merge_rels [] g = g"
| "merge_rels ((a, t, b) # xs) g = merge_rels xs (merge_rel a t b g)"

text \<open>\<open>DETACH DELETE\<close>: the nodes go, and with them every relationship that touches one.\<close>

definition detach_delete :: "node_id list \<Rightarrow> graph \<Rightarrow> graph" where
  "detach_delete ds g =
     Graph (filter (\<lambda>p. fst p \<notin> set ds) (nodes g))
           (filter (\<lambda>r. src r \<notin> set ds \<and> dst r \<notin> set ds) (rels g))
           (fresh g)"

text \<open>The outgoing relationships of \<open>v\<close> whose type is one of \<open>ts\<close>.\<close>

definition out_rels :: "rel_type list \<Rightarrow> rel list \<Rightarrow> node_id \<Rightarrow> rel list" where
  "out_rels ts rs v = filter (\<lambda>r. src r = v \<and> rtype r \<in> set ts) rs"

text \<open>
  The variable-length pattern \<open>(v)-[:T1|T2*]->(m)\<close>: every path of one or more relationships
  of the given types that starts at \<open>v\<close> and uses no relationship twice. One row per path,
  depth first, a path before its extensions; the row holds the end node \<open>m\<close>.
\<close>

function var_expand :: "rel_type list \<Rightarrow> rel list \<Rightarrow> node_id \<Rightarrow> node_id list" where
  "var_expand ts rs v =
     concat (map (\<lambda>r. dst r # var_expand ts (remove1 r rs) (dst r)) (out_rels ts rs v))"
  by pat_completeness auto
termination
proof (relation "measure (\<lambda>(ts, rs, v). length rs)")
  show "wf (measure (\<lambda>(ts, rs, v). length rs))" by simp
next
  fix ts :: "rel_type list" and rs :: "rel list" and v :: node_id and r :: rel
  assume "r \<in> set (out_rels ts rs v)"
  then have "r \<in> set rs" by (simp add: out_rels_def)
  then have "length (remove1 r rs) < length rs"
    by (simp add: length_remove1) (cases rs, auto)
  then show "((ts, remove1 r rs, dst r), (ts, rs, v)) \<in> measure (\<lambda>(ts, rs, v). length rs)"
    by simp
qed

declare var_expand.simps [simp del]

text \<open>The same rows, relationship by relationship: the form in which the pattern is evaluated.\<close>

definition expand_each :: "rel_type list \<Rightarrow> rel list \<Rightarrow> rel list \<Rightarrow> node_id list" where
  "expand_each ts rs xs =
     concat (map (\<lambda>r. dst r # var_expand ts (remove1 r rs) (dst r)) xs)"

text \<open>The fixed-length pattern \<open>(v)-[:T1|T2*k]->(m)\<close>: the paths of exactly \<open>k\<close> relationships.\<close>

fun fixed_expand :: "rel_type list \<Rightarrow> rel list \<Rightarrow> node_id \<Rightarrow> nat \<Rightarrow> node_id list" where
  "fixed_expand ts rs v 0 = [v]"
| "fixed_expand ts rs v (Suc k) =
     concat (map (\<lambda>r. fixed_expand ts (remove1 r rs) (dst r) k) (out_rels ts rs v))"


text \<open>Cypher list indexing: \<open>null\<close> out of range, negative indices count from the end.\<close>

definition cy_nth :: "'a list \<Rightarrow> int \<Rightarrow> 'a option" where
  "cy_nth xs i =
     (let n = int (length xs); j = (if i < 0 then n + i else i)
      in if 0 \<le> j \<and> j < n then Some (xs ! nat j) else None)"

text \<open>\<open>WITH k, COLLECT(x)\<close>: one row per distinct key, holding that key's values in row order.\<close>

definition collect_by :: "('k \<times> 'x) list \<Rightarrow> ('k \<times> 'x list) list" where
  "collect_by rows =
     map (\<lambda>k. (k, map snd (filter (\<lambda>p. fst p = k) rows))) (remdups (map fst rows))"

text \<open>An \<open>OPTIONAL MATCH\<close> that finds nothing yields one row with \<open>null\<close>.\<close>

definition optional :: "'a list \<Rightarrow> 'a option list" where
  "optional xs = (if xs = [] then [None] else map Some xs)"

section \<open>The queries of \<open>Neo4jInteraction\<close>\<close>

text \<open>\<open>MATCH (interaction:Interaction {org_id: .., user_id: .., interaction_id: ..})\<close>\<close>

fun is_interaction :: "string \<Rightarrow> string \<Rightarrow> string \<Rightarrow> node \<Rightarrow> bool" where
  "is_interaction org_id user_id interaction_id (Interaction org usr agent iid created updated) =
     (org = org_id \<and> usr = user_id \<and> iid = interaction_id)"
| "is_interaction org_id user_id interaction_id _ = False"

definition match_interaction :: "graph \<Rightarrow> string \<Rightarrow> string \<Rightarrow> string \<Rightarrow> node_id list" where
  "match_interaction g org_id user_id interaction_id =
     map fst (filter (\<lambda>p. is_interaction org_id user_id interaction_id (snd p)) (nodes g))"

fun is_message_block_node :: "node \<Rightarrow> bool" where
  "is_message_block_node (MessageBlock p) = True"
| "is_message_block_node _ = False"

definition is_message_block :: "graph \<Rightarrow> node_id \<Rightarrow> bool" where
  "is_message_block g m = (case node_of g m of Some n \<Rightarrow> is_message_block_node n | None \<Rightarrow> False)"

definition block_props :: "graph \<Rightarrow> node_id \<Rightarrow> message_props option" where
  "block_props g m = (case node_of g m of Some (MessageBlock p) \<Rightarrow> Some p | _ \<Rightarrow> None)"

text \<open>
  \<open>MATCH (interaction:Interaction {..})-[r:FIRST_MESSAGE|IS_NEXT*]->(m:MessageBlock)\<close>:
  the rows \<open>(interaction, m)\<close>, one per path. Either relationship type may occur at any hop.
\<close>

definition match_chain :: "graph \<Rightarrow> string \<Rightarrow> string \<Rightarrow> string \<Rightarrow> (node_id \<times> node_id) list" where
  "match_chain g org_id user_id interaction_id =
     concat (map (\<lambda>i. map (Pair i)
                          (filter (is_message_block g)
                                  (var_expand [FIRST_MESSAGE, IS_NEXT] (rels g) i)))
                 (match_interaction g org_id user_id interaction_id))"

text \<open>
  The node \<open>(:MessageBlock {msg_position: idx, role: $messages[idx].role,
  content: $messages[idx].content})\<close>. A property whose value is \<open>null\<close> is not stored.
\<close>

definition message_block :: "message list \<Rightarrow> int \<Rightarrow> node" where
  "message_block messages idx =
     MessageBlock (MessageProps idx (map_option role (cy_nth messages idx))
                                    (map_option content (cy_nth messages idx)))"

text \<open>
  \<open>UNWIND RANGE(1, SIZE(nodeList) - 1) AS idx
    WITH nodeList[idx] AS currentNode, nodeList[idx - 1] AS previousNode
    CREATE (previousNode)-[:IS_NEXT]->(currentNode)\<close>: the relationships to create.
\<close>

definition chain_rels :: "node_id list \<Rightarrow> (node_id \<times> rel_type \<times> node_id) list" where
  "chain_rels nodeList =
     map (\<lambda>idx. (nodeList ! nat (idx - 1), IS_NEXT, nodeList ! nat idx))
         [1 .. int (length nodeList) - 1]"

definition add_messages_to_interaction_from_top ::
  "string \<Rightarrow> string \<Rightarrow> string \<Rightarrow> message list \<Rightarrow> graph \<Rightarrow> graph" where
  "add_messages_to_interaction_from_top org_id user_id interaction_id messages g =
     (let interactions = match_interaction g org_id user_id interaction_id in
      case create_nodes (map (\<lambda>i. message_block messages 0) interactions) g of (msg1s, g1) \<Rightarrow>
      let g2 = create_rels (map (\<lambda>(i, msg1). (i, FIRST_MESSAGE, msg1)) (zip interactions msg1s)) g1;
          rows = concat (map (\<lambda>msg1. map (Pair msg1) [1 .. int (length messages) - 1]) msg1s) in
      case create_nodes (map (\<lambda>(msg1, idx). message_block messages idx) rows) g2 of (msgs, g3) \<Rightarrow>
      let groups = collect_by (zip (map fst rows) msgs);
          nodeLists = map (\<lambda>(msg1, nodeList). msg1 # nodeList) groups
      in create_rels (concat (map chain_rels nodeLists)) g3)"

text \<open>\<open>WHERE NOT (m)-[:IS_NEXT]->()\<close>\<close>

definition has_next :: "graph \<Rightarrow> node_id \<Rightarrow> bool" where
  "has_next g m = (\<exists>r \<in> set (rels g). src r = m \<and> rtype r = IS_NEXT)"

definition append_messages_to_interaction ::
  "string \<Rightarrow> string \<Rightarrow> string \<Rightarrow> message list \<Rightarrow> graph \<Rightarrow> graph" where
  "append_messages_to_interaction org_id user_id interaction_id messages g =
     (let tails = filter (\<lambda>m. \<not> has_next g m)
                         (map snd (match_chain g org_id user_id interaction_id));
          rows = concat (map (\<lambda>m. case block_props g m of
                                      None \<Rightarrow> []
                                    | Some p \<Rightarrow> map (Pair m)
                                          [msg_position p + 1 .. int (length messages) - 1])
                             tails) in
      case create_nodes (map (\<lambda>(m, idx). message_block messages idx) rows) g of (msgs, g1) \<Rightarrow>
      let groups = collect_by (zip (map fst rows) msgs);
          nodeLists = map (\<lambda>(m, nodeList). m # nodeList) groups
      in create_rels (concat (map chain_rels nodeLists)) g1)"

text \<open>
  The truncation query of \<open>update_tx\<close>, with \<open>truncate_from\<close> spliced in as the path length:
  \<open>MATCH (interaction {..})-[r:FIRST_MESSAGE|IS_NEXT*k]->(m:MessageBlock)
    MATCH (m)-[:IS_NEXT*]->(n)  DETACH DELETE n\<close>
\<close>

definition truncate_messages :: "string \<Rightarrow> string \<Rightarrow> string \<Rightarrow> nat \<Rightarrow> graph \<Rightarrow> graph" where
  "truncate_messages org_id user_id interaction_id k g =
     (let ms = concat (map (\<lambda>i. filter (is_message_block g)
                                       (fixed_expand [FIRST_MESSAGE, IS_NEXT] (rels g) i k))
                           (match_interaction g org_id user_id interaction_id));
          ns = concat (map (var_expand [IS_NEXT] (rels g)) ms)
      in detach_delete ns g)"

text \<open>\<open>get_interaction_messages\<close>: \<open>RETURN m{.*}\<close> for every row of the chain pattern.\<close>

definition get_interaction_messages ::
  "graph \<Rightarrow> string \<Rightarrow> string \<Rightarrow> string \<Rightarrow> message_props list" where
  "get_interaction_messages g org_id user_id interaction_id =
     concat (map (\<lambda>(i, m). case block_props g m of Some p \<Rightarrow> [p] | None \<Rightarrow> [])
                 (match_chain g org_id user_id interaction_id))"


subsection \<open>Memories\<close>

text \<open>
  Modelled from the spec: the schema class \<open>MemoriesAndInteraction\<close>
  (\<open>memora.schema.save_memory_schema\<close>) is not among the sources. The records hold the fields
  the queries read: the transcript, the new memories with the positions of their source
  messages, the contrary memories with the id of the memory each one supersedes, and the date.
\<close>

record memory_obj =
  memory :: string
  source_msg_block_pos :: "int list"

record contrary_memory_obj = memory_obj +
  existing_contrary_memory_id :: string

record memories_and_interaction =
  interaction :: "message list"
  memories :: "memory_obj list"
  contrary_memories :: "contrary_memory_obj list"
  interaction_date :: datetime

text \<open>The texts and source positions of \<open>memories + contrary_memories\<close>.\<close>

definition all_memories :: "memories_and_interaction \<Rightarrow> (string \<times> int list) list" where
  "all_memories mi =
     map (\<lambda>m. (memory m, source_msg_block_pos m)) (memories mi) @
     map (\<lambda>m. (memory m, source_msg_block_pos m)) (contrary_memories mi)"

fun is_user :: "string \<Rightarrow> string \<Rightarrow> node \<Rightarrow> bool" where
  "is_user org_id user_id (User org usr name) = (org = org_id \<and> usr = user_id)"
| "is_user org_id user_id _ = False"

text \<open>\<open>MATCH (u:User {org_id: .., user_id: ..})-[:T]->(x)\<close>: the rows \<open>(u, x)\<close>.\<close>

definition match_user_rel :: "graph \<Rightarrow> string \<Rightarrow> string \<Rightarrow> rel_type \<Rightarrow> (node_id \<times> node_id) list" where
  "match_user_rel g org_id user_id t =
     concat (map (\<lambda>u. map (\<lambda>r. (u, dst r)) (out_rels [t] (rels g) u))
                 (map fst (filter (\<lambda>p. is_user org_id user_id (snd p)) (nodes g))))"

text \<open>
  \<open>CREATE (message_node)<-[:MESSAGE_SOURCE]-(memory)\<close> over the rows
  \<open>(messages[source_msg_pos], memory)\<close>. Creating a relationship on a \<open>null\<close> node makes
  the query fail.
\<close>

fun create_source_links :: "(node_id option \<times> node_id) list \<Rightarrow> graph \<Rightarrow> error + graph" where
  "create_source_links [] g = Inr g"
| "create_source_links ((None, mem) # rows) g = Inl NullNode"
| "create_source_links ((Some message_node, mem) # rows) g =
     create_source_links rows (create_rel mem MESSAGE_SOURCE message_node g)"

definition add_memories_with_their_source_links ::
  "string \<Rightarrow> string \<Rightarrow> string \<Rightarrow> string \<Rightarrow> memories_and_interaction \<Rightarrow>
   string list \<Rightarrow> string list \<Rightarrow> graph \<Rightarrow> error + graph" where
  "add_memories_with_their_source_links org_id user_id agent_id interaction_id mi
       new_memory_ids new_contrary_memory_ids g =
     (let memories_and_source =
            zip (new_memory_ids @ new_contrary_memory_ids) (all_memories mi);
          chain = match_chain g org_id user_id interaction_id;
          mcs = map snd (match_user_rel g org_id user_id HAS_MEMORIES);
          collected = collect_by
                        (concat (map (\<lambda>(i, m). map (\<lambda>mc. ((i, mc), m)) mcs) chain));
          rows = concat (map (\<lambda>((i, mc), messages).
                                 map (\<lambda>memory_tuple. (messages, i, mc, memory_tuple))
                                     memories_and_source)
                             collected) in
      case create_nodes
             (map (\<lambda>(messages, i, mc, memory_id, text, pos).
                      Memory org_id user_id agent_id interaction_id memory_id text
                             (interaction_date mi))
                  rows) g of (mems, g1) \<Rightarrow>
      let rows1 = zip rows mems;
          g2 = create_rels (map (\<lambda>((messages, i, mc, t), mem). (mem, INTERACTION_SOURCE, i)) rows1) g1;
          g3 = create_rels (map (\<lambda>((messages, i, mc, t), mem). (mc, INCLUDES, mem)) rows1) g2;
          rows2 = concat (map (\<lambda>((messages, i, mc, memory_id, text, pos), mem).
                                  map (\<lambda>source_msg_pos. (cy_nth messages source_msg_pos, mem)) pos)
                              rows1)
      in create_source_links rows2 g3)"

fun is_memory :: "string \<Rightarrow> string \<Rightarrow> string \<Rightarrow> node \<Rightarrow> bool" where
  "is_memory org_id user_id memory_id (Memory org usr agent iid mid text obtained) =
     (org = org_id \<and> usr = user_id \<and> mid = memory_id)"
| "is_memory org_id user_id memory_id _ = False"

definition match_memory :: "graph \<Rightarrow> string \<Rightarrow> string \<Rightarrow> string \<Rightarrow> node_id list" where
  "match_memory g org_id user_id memory_id =
     map fst (filter (\<lambda>p. is_memory org_id user_id memory_id (snd p)) (nodes g))"

text \<open>
  \<open>UNWIND $contrary_and_existing_ids AS t  MATCH (new_contrary_memory ..)  MATCH (old_memory ..)
    MERGE (new_contrary_memory)<-[:CONTRARY_UPDATE]-(old_memory)\<close>, row after row.
\<close>

fun link_pairs :: "string \<Rightarrow> string \<Rightarrow> (string \<times> string) list \<Rightarrow> graph \<Rightarrow> graph" where
  "link_pairs org_id user_id [] g = g"
| "link_pairs org_id user_id ((contrary_id, existing_id) # pairs) g =
     link_pairs org_id user_id pairs
       (merge_rels
          (concat (map (\<lambda>new_contrary_memory.
                          map (\<lambda>old_memory. (old_memory, CONTRARY_UPDATE, new_contrary_memory))
                              (match_memory g org_id user_id existing_id))
                       (match_memory g org_id user_id contrary_id)))
          g)"

definition link_update_contrary_memories_to_existing_memories ::
  "string \<Rightarrow> string \<Rightarrow> string list \<Rightarrow> memories_and_interaction \<Rightarrow> graph \<Rightarrow> graph" where
  "link_update_contrary_memories_to_existing_memories org_id user_id new_contrary_memory_ids mi g =
     link_pairs org_id user_id
       (map (\<lambda>(contrary_memory_id, contrary_memory_obj).
               (contrary_memory_id, existing_contrary_memory_id contrary_memory_obj))
            (zip new_contrary_memory_ids (contrary_memories mi)))
       g"

text \<open>\<open>get_all_interaction_memories\<close>:
  \<open>MATCH (i:Interaction {..})<-[:INTERACTION_SOURCE]-(m:Memory) RETURN m{.memory_id, ..}\<close>;
  only the \<open>memory_id\<close> of each row is read afterwards.\<close>

fun memory_id_of :: "node \<Rightarrow> string option" where
  "memory_id_of (Memory org usr agent iid mid text obtained) = Some mid"
| "memory_id_of _ = None"

definition in_nodes :: "graph \<Rightarrow> rel_type \<Rightarrow> node_id \<Rightarrow> node_id list" where
  "in_nodes g t v = map src (filter (\<lambda>r. dst r = v \<and> rtype r = t) (rels g))"

definition get_all_interaction_memories ::
  "graph \<Rightarrow> string \<Rightarrow> string \<Rightarrow> string \<Rightarrow> string list" where
  "get_all_interaction_memories g org_id user_id interaction_id =
     concat (map (\<lambda>i. concat (map (\<lambda>m. case node_of g m of
                                             Some n \<Rightarrow> (case memory_id_of n of Some mid \<Rightarrow> [mid] | None \<Rightarrow> [])
                                           | None \<Rightarrow> [])
                                   (in_nodes g INTERACTION_SOURCE i)))
                 (match_interaction g org_id user_id interaction_id))"

subsection \<open>Dates\<close>

fun is_date :: "string \<Rightarrow> string \<Rightarrow> nat \<Rightarrow> node \<Rightarrow> bool" where
  "is_date org_id user_id day (Date org usr d) = (org = org_id \<and> usr = user_id \<and> d = day)"
| "is_date org_id user_id day _ = False"

fun is_date_node :: "node \<Rightarrow> bool" where
  "is_date_node (Date org usr d) = True"
| "is_date_node _ = False"

text \<open>\<open>MERGE (d:Date {org_id: .., user_id: .., date: ..})\<close> for one row: every matching
  node, or a new node when there is none.\<close>

definition merge_date :: "string \<Rightarrow> string \<Rightarrow> nat \<Rightarrow> graph \<Rightarrow> node_id list \<times> graph" where
  "merge_date org_id user_id day g =
     (let ds = map fst (filter (\<lambda>p. is_date org_id user_id day (snd p)) (nodes g))
      in if ds = [] then (case create_node (Date org_id user_id day) g of (d, g1) \<Rightarrow> ([d], g1))
         else (ds, g))"

fun merge_dates :: "string \<Rightarrow> string \<Rightarrow> nat \<Rightarrow> node_id list \<Rightarrow> graph \<Rightarrow> (node_id \<times> node_id) list \<times> graph" where
  "merge_dates org_id user_id day [] g = ([], g)"
| "merge_dates org_id user_id day (i # is) g =
     (case merge_date org_id user_id day g of (ds, g1) \<Rightarrow>
        (case merge_dates org_id user_id day is g1 of (rows, g2) \<Rightarrow>
           (map (Pair i) ds @ rows, g2)))"

text \<open>The first query of \<open>save_tx\<close>: the interaction, its place in the user's collection, and
  its date.\<close>

definition create_interaction ::
  "string \<Rightarrow> string \<Rightarrow> string \<Rightarrow> string \<Rightarrow> datetime \<Rightarrow> graph \<Rightarrow> graph" where
  "create_interaction org_id user_id agent_id interaction_id date g =
     (let ics = map snd (match_user_rel g org_id user_id INTERACTIONS_IN) in
      case create_nodes
             (map (\<lambda>ic. Interaction org_id user_id agent_id interaction_id date date) ics) g
        of (is, g1) \<Rightarrow>
      let g2 = create_rels (map (\<lambda>(ic, i). (ic, HAD_INTERACTION, i)) (zip ics is)) g1 in
      case merge_dates org_id user_id (cal_date date) is g2 of (rows, g3) \<Rightarrow>
        create_rels (map (\<lambda>(i, d). (i, HAS_OCCURRENCE_ON, d)) rows) g3)"

text \<open>The last query of \<open>update_tx\<close>: \<open>SET i.updated_at = .., i.agent_id = ..\<close>, then the date
  and the relationship to it, both merged.\<close>

fun set_updated :: "datetime \<Rightarrow> string \<Rightarrow> node \<Rightarrow> node" where
  "set_updated date agent_id (Interaction org usr agent iid created updated) =
     Interaction org usr agent_id iid created date"
| "set_updated date agent_id n = n"

definition update_interaction_date ::
  "string \<Rightarrow> string \<Rightarrow> string \<Rightarrow> string \<Rightarrow> datetime \<Rightarrow> graph \<Rightarrow> graph" where
  "update_interaction_date org_id user_id agent_id interaction_id date g =
     (let is = match_interaction g org_id user_id interaction_id;
          g1 = Graph (map (\<lambda>(j, n). if j \<in> set is then (j, set_updated date agent_id n) else (j, n))
                          (nodes g))
                     (rels g) (fresh g) in
      case merge_dates org_id user_id (cal_date date) is g1 of (rows, g2) \<Rightarrow>
        merge_rels (map (\<lambda>(i, d). (i, HAS_OCCURRENCE_ON, d)) rows) g2)"

text \<open>
  The query of \<open>delete_tx\<close>:
  \<open>MATCH (interaction {..})-[r:FIRST_MESSAGE|IS_NEXT*]->(message:MessageBlock)
    OPTIONAL MATCH (interaction)<-[:MESSAGE_SOURCE]-(memory)
    OPTIONAL MATCH (interaction)-[:HAS_OCCURRENCE_ON]->(date:Date)
      WHERE NOT (date)<-[:HAS_OCCURRENCE_ON]-()
    DETACH DELETE interaction, message, memory, date\<close>.
  The pattern in \<open>WHERE\<close> is a predicate on the graph of its own: it holds as soon as any
  \<open>HAS_OCCURRENCE_ON\<close> relationship ends at \<open>date\<close>, the one just matched included.
\<close>

definition is_date_id :: "graph \<Rightarrow> node_id \<Rightarrow> bool" where
  "is_date_id g d = (case node_of g d of Some n \<Rightarrow> is_date_node n | None \<Rightarrow> False)"

definition delete_interaction_query :: "string \<Rightarrow> string \<Rightarrow> string \<Rightarrow> graph \<Rightarrow> graph" where
  "delete_interaction_query org_id user_id interaction_id g =
     (let rows1 = match_chain g org_id user_id interaction_id;
          rows2 = concat (map (\<lambda>(i, message).
                                  map (\<lambda>mem. (i, message, mem))
                                      (optional (in_nodes g MESSAGE_SOURCE i)))
                              rows1);
          rows3 = concat (map (\<lambda>(i, message, mem).
                                  map (\<lambda>date. (i, message, mem, date))
                                      (optional
                                         (filter (\<lambda>d. is_date_id g d \<and>
                                                       in_nodes g HAS_OCCURRENCE_ON d = [])
                                                 (map dst (out_rels [HAS_OCCURRENCE_ON] (rels g) i)))))
                              rows2)
      in detach_delete
           (concat (map (\<lambda>(i, message, mem, date).
                           [i, message] @ (case mem of Some x \<Rightarrow> [x] | None \<Rightarrow> [])
                                        @ (case date of Some d \<Rightarrow> [d] | None \<Rightarrow> []))
                        rows3))
           g)"


subsection \<open>Users\<close>

text \<open>The query of \<open>create_user\<close> (\<open>user.py\<close>): for every organisation node that matches,
  a user with an interaction collection and a memory collection.\<close>

fun is_org :: "string \<Rightarrow> node \<Rightarrow> bool" where
  "is_org org_id (Org org) = (org = org_id)"
| "is_org org_id _ = False"

fun create_user_rows :: "string \<Rightarrow> string \<Rightarrow> string \<Rightarrow> node_id list \<Rightarrow> graph \<Rightarrow> graph" where
  "create_user_rows org_id user_id user_name [] g = g"
| "create_user_rows org_id user_id user_name (org_node # rest) g =
     (case create_node (User org_id user_id user_name) g of (u, g1) \<Rightarrow>
      let g2 = create_rel u BELONGS_TO org_node g1 in
      case create_node (InteractionCollection org_id user_id) g2 of (ic, g3) \<Rightarrow>
      case create_node (MemoryCollection org_id user_id) g3 of (mc, g4) \<Rightarrow>
        create_user_rows org_id user_id user_name rest
          (create_rel u HAS_MEMORIES mc (create_rel u INTERACTIONS_IN ic g4)))"

definition create_user :: "string \<Rightarrow> string \<Rightarrow> string \<Rightarrow> graph \<Rightarrow> graph" where
  "create_user org_id user_name user_id g =
     create_user_rows org_id user_id user_name
       (map fst (filter (\<lambda>p. is_org org_id (snd p)) (nodes g))) g"

section \<open>Transactions and the vector index\<close>

text \<open>
  A transaction function works on the graph and may call the vector index, whose state
  \<open>'v\<close> lives outside the graph. It ends with a value and the new graph, or with the error
  that was raised. \<open>session.execute_write\<close> commits the new graph when the function returns
  and keeps the old graph when it raises; what the callbacks did to the vector index stays.
\<close>

type_synonym ('a, 'v) tx = "graph \<Rightarrow> 'v \<Rightarrow> (error + 'a \<times> graph) \<times> 'v"

definition execute_write :: "('a, 'v) tx \<Rightarrow> graph \<Rightarrow> 'v \<Rightarrow> (error + 'a) \<times> graph \<times> 'v" where
  "execute_write f g v =
     (case f g v of
        (Inl e, v1) \<Rightarrow> (Inl e, g, v1)
      | (Inr (a, g1), v1) \<Rightarrow> (Inr a, g1, v1))"

text \<open>The callbacks: \<open>vector_db_add_memories_fn(org_id, user_id, agent_id, memory_ids,
  memories, obtained_at)\<close> and \<open>vector_db_delete_memories_by_id_fn(memory_ids)\<close>. Each
  returns the error it raised, if any, and the vector index as it left it.\<close>

type_synonym 'v add_memories_fn =
  "string \<Rightarrow> string \<Rightarrow> string \<Rightarrow> string list \<Rightarrow> string list \<Rightarrow> datetime \<Rightarrow> 'v \<Rightarrow> error option \<times> 'v"

type_synonym 'v delete_memories_fn = "string list \<Rightarrow> 'v \<Rightarrow> error option \<times> 'v"

section \<open>Saving\<close>

text \<open>The identifiers come from outside: \<open>interaction_id\<close> is the value of
  \<open>shortuuid.uuid()\<close>, and \<open>uuid4 n\<close> the value of the \<open>n\<close>-th call of \<open>uuid.uuid4()\<close>.\<close>

definition save_tx ::
  "string \<Rightarrow> string \<Rightarrow> string \<Rightarrow> memories_and_interaction \<Rightarrow> 'v add_memories_fn \<Rightarrow>
   string \<Rightarrow> string list \<Rightarrow> string list \<Rightarrow> (string \<times> datetime, 'v) tx" where
  "save_tx org_id agent_id user_id mi vector_db_add_memories_fn
       interaction_id new_memory_ids new_contrary_memory_ids g v =
     (let g1 = create_interaction org_id user_id agent_id interaction_id (interaction_date mi) g;
          g2 = add_messages_to_interaction_from_top org_id user_id interaction_id (interaction mi) g1
      in case (if new_memory_ids \<noteq> [] \<or> new_contrary_memory_ids \<noteq> []
               then add_memories_with_their_source_links org_id user_id agent_id interaction_id mi
                      new_memory_ids new_contrary_memory_ids g2
               else Inr g2) of
           Inl e \<Rightarrow> (Inl e, v)
         | Inr g3 \<Rightarrow>
            (let g4 = (if new_contrary_memory_ids \<noteq> []
                       then link_update_contrary_memories_to_existing_memories org_id user_id
                              new_contrary_memory_ids mi g3
                       else g3)
             in if new_memory_ids \<noteq> [] \<or> new_contrary_memory_ids \<noteq> []
                then (case vector_db_add_memories_fn org_id user_id agent_id
                             (new_memory_ids @ new_contrary_memory_ids)
                             (map fst (all_memories mi)) (interaction_date mi) v of
                        (Some e, v1) \<Rightarrow> (Inl e, v1)
                      | (None, v1) \<Rightarrow> (Inr ((interaction_id, interaction_date mi), g4), v1))
                else (Inr ((interaction_id, interaction_date mi), g4), v)))"

definition save_interaction_with_memories ::
  "string \<Rightarrow> string \<Rightarrow> string \<Rightarrow> memories_and_interaction \<Rightarrow> 'v add_memories_fn \<Rightarrow>
   string \<Rightarrow> (nat \<Rightarrow> string) \<Rightarrow> graph \<Rightarrow> 'v \<Rightarrow> (error + string \<times> datetime) \<times> graph \<times> 'v" where
  "save_interaction_with_memories org_id agent_id user_id mi vector_db_add_memories_fn
       interaction_id uuid4 g v =
     (let new_memory_ids = map uuid4 [0 ..< length (memories mi)];
          new_contrary_memory_ids =
            map uuid4 [length (memories mi) ..< length (memories mi) + length (contrary_memories mi)]
      in execute_write
           (save_tx org_id agent_id user_id mi vector_db_add_memories_fn
              interaction_id new_memory_ids new_contrary_memory_ids) g v)"

section \<open>Updating\<close>

text \<open>
  The comparison loop of \<open>update_interaction_and_memories\<close>, from index \<open>i\<close> on, with
  \<open>truncate_from\<close> as it stands. \<open>existing_messages[i]["role"]\<close> raises \<open>KeyError\<close> on a
  stored block without that property, and the incoming transcript raises \<open>IndexError\<close> when
  it has no index \<open>i\<close>; the content is compared only when the roles are equal.
\<close>

function compare_messages :: "message_props list \<Rightarrow> message list \<Rightarrow> nat \<Rightarrow> int \<Rightarrow> error + int" where
  "compare_messages existing_messages incoming i truncate_from =
     (if i < length existing_messages then
        (case role_prop (existing_messages ! i) of
           None \<Rightarrow> Inl KeyError
         | Some existing_role \<Rightarrow>
            if \<not> i < length incoming then Inl IndexError
            else if existing_role \<noteq> role (incoming ! i) then Inr (int i)
            else (case content_prop (existing_messages ! i) of
                    None \<Rightarrow> Inl KeyError
                  | Some existing_content \<Rightarrow>
                     if existing_content \<noteq> content (incoming ! i) then Inr (int i)
                     else compare_messages existing_messages incoming (Suc i) truncate_from))
      else Inr truncate_from)"
  by pat_completeness auto
termination
  by (relation "measure (\<lambda>(existing_messages, incoming, i, t). length existing_messages - i)") auto

declare compare_messages.simps [simp del]

definition compute_truncate_from :: "message_props list \<Rightarrow> message list \<Rightarrow> error + int" where
  "compute_truncate_from existing_messages incoming =
     compare_messages existing_messages incoming 0 (if existing_messages \<noteq> [] then - 1 else 0)"

text \<open>The first statement of \<open>update_tx\<close>: the three branches on \<open>truncate_from\<close>.\<close>

definition update_messages ::
  "string \<Rightarrow> string \<Rightarrow> string \<Rightarrow> message list \<Rightarrow> int \<Rightarrow> graph \<Rightarrow> graph" where
  "update_messages org_id user_id interaction_id messages truncate_from g =
     (if truncate_from = - 1 then
        append_messages_to_interaction org_id user_id interaction_id messages g
      else if truncate_from = 0 then
        add_messages_to_interaction_from_top org_id user_id interaction_id messages g
      else if truncate_from > 0 then
        append_messages_to_interaction org_id user_id interaction_id messages
          (truncate_messages org_id user_id interaction_id (nat truncate_from) g)
      else g)"

definition update_tx ::
  "string \<Rightarrow> string \<Rightarrow> string \<Rightarrow> string \<Rightarrow> memories_and_interaction \<Rightarrow> 'v add_memories_fn \<Rightarrow>
   int \<Rightarrow> string list \<Rightarrow> string list \<Rightarrow> (string \<times> datetime, 'v) tx" where
  "update_tx org_id agent_id user_id interaction_id mi vector_db_add_memories_fn
       truncate_from new_memory_ids new_contrary_memory_ids g v =
     (let g1 = update_messages org_id user_id interaction_id (interaction mi) truncate_from g
      in case (if new_memory_ids \<noteq> [] \<or> new_contrary_memory_ids \<noteq> []
               then add_memories_with_their_source_links org_id user_id agent_id interaction_id mi
                      new_memory_ids new_contrary_memory_ids g1
               else Inr g1) of
           Inl e \<Rightarrow> (Inl e, v)
         | Inr g2 \<Rightarrow>
            (let g3 = (if new_contrary_memory_ids \<noteq> []
                       then link_update_contrary_memories_to_existing_memories org_id user_id
                              new_contrary_memory_ids mi g2
                       else g2);
                 g4 = update_interaction_date org_id user_id agent_id interaction_id
                        (interaction_date mi) g3
             in if new_memory_ids \<noteq> [] \<or> new_contrary_memory_ids \<noteq> []
                then (case vector_db_add_memories_fn org_id user_id agent_id
                             (new_memory_ids @ new_contrary_memory_ids)
                             (map fst (all_memories mi)) (interaction_date mi) v of
                        (Some e, v1) \<Rightarrow> (Inl e, v1)
                      | (None, v1) \<Rightarrow> (Inr ((interaction_id, interaction_date mi), g4), v1))
                else (Inr ((interaction_id, interaction_date mi), g4), v)))"

definition update_interaction_and_memories ::
  "string \<Rightarrow> string \<Rightarrow> string \<Rightarrow> string \<Rightarrow> memories_and_interaction \<Rightarrow> 'v add_memories_fn \<Rightarrow>
   (nat \<Rightarrow> string) \<Rightarrow> graph \<Rightarrow> 'v \<Rightarrow> (error + string \<times> datetime) \<times> graph \<times> 'v" where
  "update_interaction_and_memories org_id agent_id user_id interaction_id mi
       vector_db_add_memories_fn uuid4 g v =
     (let new_memory_ids = map uuid4 [0 ..< length (memories mi)];
          new_contrary_memory_ids =
            map uuid4 [length (memories mi) ..< length (memories mi) + length (contrary_memories mi)];
          existing_messages = get_interaction_messages g org_id user_id interaction_id
      in case compute_truncate_from existing_messages (interaction mi) of
           Inl e \<Rightarrow> (Inl e, g, v)
         | Inr truncate_from \<Rightarrow>
             execute_write
               (update_tx org_id agent_id user_id interaction_id mi vector_db_add_memories_fn
                  truncate_from new_memory_ids new_contrary_memory_ids) g v)"

section \<open>Deleting\<close>

definition delete_tx ::
  "string \<Rightarrow> string \<Rightarrow> string \<Rightarrow> 'v delete_memories_fn \<Rightarrow> string list \<Rightarrow> (unit, 'v) tx" where
  "delete_tx org_id user_id interaction_id vector_db_delete_memories_by_id_fn
       interaction_memories_ids g v =
     (let g1 = delete_interaction_query org_id user_id interaction_id g
      in case vector_db_delete_memories_by_id_fn interaction_memories_ids v of
           (Some e, v1) \<Rightarrow> (Inl e, v1)
         | (None, v1) \<Rightarrow> (Inr ((), g1), v1))"

definition delete_user_interaction_and_its_memories ::
  "string \<Rightarrow> string \<Rightarrow> string \<Rightarrow> 'v delete_memories_fn \<Rightarrow> graph \<Rightarrow> 'v \<Rightarrow>
   (error + unit) \<times> graph \<times> 'v" where
  "delete_user_interaction_and_its_memories org_id user_id interaction_id
       vector_db_delete_memories_by_id_fn g v =
     (let interaction_memories_ids = get_all_interaction_memories g org_id user_id interaction_id
      in execute_write
           (delete_tx org_id user_id interaction_id vector_db_delete_memories_by_id_fn
              interaction_memories_ids) g v)"


section \<open>A small database\<close>

text \<open>
  One organisation and one user, created by \<open>create_user\<close>; transcripts of a few messages;
  a vector index that is the list of the memory-id batches it was called with, and callbacks
  that record their call or raise.
\<close>

definition db_user :: graph where
  "db_user = create_user ''org'' ''ann'' ''u1'' (Graph [(0, Org ''org'')] [] 1)"

definition msg_a :: message where "msg_a = Message ''user'' ''a''"
definition msg_b :: message where "msg_b = Message ''assistant'' ''b''"
definition msg_c :: message where "msg_c = Message ''user'' ''c''"
definition msg_d :: message where "msg_d = Message ''user'' ''d''"
definition msg_e :: message where "msg_e = Message ''assistant'' ''e''"

definition uuid4_demo :: "nat \<Rightarrow> string" where
  "uuid4_demo n = replicate (Suc n) CHR ''m''"

definition recording_add :: "string list list add_memories_fn" where
  "recording_add org_id user_id agent_id memory_ids texts obtained_at v = (None, v @ [memory_ids])"

definition raising_add :: "string list list add_memories_fn" where
  "raising_add org_id user_id agent_id memory_ids texts obtained_at v = (Some CallbackError, v)"

definition recording_delete :: "string list list delete_memories_fn" where
  "recording_delete memory_ids v = (None, v @ [memory_ids])"

definition transcript_only :: "message list \<Rightarrow> nat \<Rightarrow> memories_and_interaction" where
  "transcript_only ms day =
     \<lparr>interaction = ms, memories = [], contrary_memories = [],
      interaction_date = DateTime day 0\<rparr>"

definition with_one_memory :: "message list \<Rightarrow> nat \<Rightarrow> memories_and_interaction" where
  "with_one_memory ms day =
     \<lparr>interaction = ms,
      memories = [\<lparr>memory = ''likes tea'', source_msg_block_pos = [0]\<rparr>],
      contrary_memories = [], interaction_date = DateTime day 0\<rparr>"

text \<open>The database after saving interaction \<open>i1\<close> with transcript \<open>ms\<close> and one memory.\<close>

definition db_saved :: "message list \<Rightarrow> graph" where
  "db_saved ms =
     fst (snd (save_interaction_with_memories ''org'' ''agent'' ''u1'' (with_one_memory ms 5)
                 recording_add ''i1'' uuid4_demo db_user []))"

text \<open>An interaction \<open>i2\<close> that has no message block, without and with a memory of its own.\<close>

definition db_bare :: graph where
  "db_bare = create_interaction ''org'' ''u1'' ''agent'' ''i2'' (DateTime 7 0) db_user"

definition db_bare_with_memory :: graph where
  "db_bare_with_memory =
     (case create_node (Memory ''org'' ''u1'' ''agent'' ''i2'' ''m9'' ''old fact'' (DateTime 7 0))
             db_bare
      of (m, g) \<Rightarrow> create_rel m INTERACTION_SOURCE 7 g)"

text \<open>A second interaction \<open>i2\<close> whose one memory contradicts the memory \<open>m\<close> of \<open>i1\<close>.\<close>

definition uuid4_other :: "nat \<Rightarrow> string" where
  "uuid4_other n = replicate (Suc n) CHR ''n''"

definition with_one_contrary :: "message list \<Rightarrow> nat \<Rightarrow> memories_and_interaction" where
  "with_one_contrary ms day =
     \<lparr>interaction = ms, memories = [],
      contrary_memories =
        [\<lparr>memory = ''likes coffee'', source_msg_block_pos = [0],
          existing_contrary_memory_id = ''m''\<rparr>],
      interaction_date = DateTime day 0\<rparr>"

definition db_contrary :: graph where
  "db_contrary =
     fst (snd (save_interaction_with_memories ''org'' ''agent'' ''u1''
                 (with_one_contrary [msg_c] 6) recording_add ''i2'' uuid4_other
                 (db_saved [msg_a]) []))"

section \<open>Notions used in the statements\<close>

text \<open>The number of relationships of type \<open>t\<close> from \<open>a\<close> to \<open>b\<close>.\<close>

definition count_rels :: "graph \<Rightarrow> node_id \<Rightarrow> rel_type \<Rightarrow> node_id \<Rightarrow> nat" where
  "count_rels g a t b =
     length (filter (\<lambda>r. src r = a \<and> rtype r = t \<and> dst r = b) (rels g))"

text \<open>Some pair of the batch names \<open>new\<close> as its contrary memory and \<open>old\<close> as the memory it
  supersedes.\<close>

definition links ::
  "graph \<Rightarrow> string \<Rightarrow> string \<Rightarrow> (string \<times> string) list \<Rightarrow> node_id \<Rightarrow> node_id \<Rightarrow> bool" where
  "links g org_id user_id pairs old new =
     (\<exists>p \<in> set pairs. new \<in> set (match_memory g org_id user_id (fst p)) \<and>
                       old \<in> set (match_memory g org_id user_id (snd p)))"

text \<open>The end nodes of the relationships of types \<open>ts\<close> that leave \<open>v\<close>.\<close>

definition succs :: "rel_type list \<Rightarrow> rel list \<Rightarrow> node_id \<Rightarrow> node_id list" where
  "succs ts rs v = map dst (out_rels ts rs v)"

text \<open>
  A message chain: the only \<open>FIRST_MESSAGE\<close> or \<open>IS_NEXT\<close> relationship that leaves \<open>v\<close>
  has type \<open>t\<close> and goes to the first node of the list, from there on each node has one such
  relationship, of type \<open>IS_NEXT\<close>, to the next node, and the last node has none.
\<close>

fun chain_from :: "rel list \<Rightarrow> rel_type \<Rightarrow> node_id \<Rightarrow> node_id list \<Rightarrow> bool" where
  "chain_from rs t v [] = (succs [FIRST_MESSAGE, IS_NEXT] rs v = [])"
| "chain_from rs t v (b # bs) =
     (succs [FIRST_MESSAGE, IS_NEXT] rs v = [b] \<and> succs [t] rs v = [b] \<and>
      chain_from rs IS_NEXT b bs)"

text \<open>
  The chain invariant for one interaction: the interaction is the node \<open>i\<close> and no other,
  the blocks \<open>bs\<close> are distinct nodes chained from \<open>i\<close> by one \<open>FIRST_MESSAGE\<close> and then
  \<open>IS_NEXT\<close> relationships, they carry the properties \<open>ps\<close>, and their positions are
  0, 1, 2, ... in chain order.
\<close>

definition holds_chain ::
  "graph \<Rightarrow> string \<Rightarrow> string \<Rightarrow> string \<Rightarrow> node_id \<Rightarrow> node_id list \<Rightarrow> message_props list \<Rightarrow> bool" where
  "holds_chain g org_id user_id interaction_id i bs ps =
     (match_interaction g org_id user_id interaction_id = [i] \<and>
      distinct (i # bs) \<and>
      chain_from (rels g) FIRST_MESSAGE i bs \<and>
      map (block_props g) bs = map Some ps \<and>
      map msg_position ps = map int [0 ..< length ps])"

text \<open>Identifiers are handed out in increasing order: every node and every end of a
  relationship is below the counter.\<close>

definition wf_graph :: "graph \<Rightarrow> bool" where
  "wf_graph g =
     ((\<forall>p \<in> set (nodes g). fst p < fresh g) \<and>
      (\<forall>r \<in> set (rels g). src r < fresh g \<and> dst r < fresh g))"

text \<open>A transcript as the blocks of a chain carry it.\<close>

definition stored_as :: "message list \<Rightarrow> message_props list" where
  "stored_as ms =
     map (\<lambda>j. MessageProps (int j) (Some (role (ms ! j))) (Some (content (ms ! j))))
         [0 ..< length ms]"

text \<open>Position \<open>j\<close> of the stored chain agrees with the incoming transcript.\<close>

definition agrees :: "message_props list \<Rightarrow> message list \<Rightarrow> nat \<Rightarrow> bool" where
  "agrees existing_messages incoming j =
     (role_prop (existing_messages ! j) = Some (role (incoming ! j)) \<and>
      content_prop (existing_messages ! j) = Some (content (incoming ! j)))"

text \<open>The node that follows \<open>u\<close> in a list of nodes, if there is one.\<close>

fun next_in :: "node_id list \<Rightarrow> node_id \<Rightarrow> node_id list" where
  "next_in (x # y # zs) u = (if u = x then [y] else next_in (y # zs) u)"
| "next_in xs u = []"

text \<open>What the reads of a chain depend on: the interaction nodes, the properties of the
  message blocks, and the \<open>FIRST_MESSAGE\<close> and \<open>IS_NEXT\<close> relationships.\<close>

definition chain_rels_of :: "graph \<Rightarrow> rel list" where
  "chain_rels_of g = filter (\<lambda>r. rtype r \<in> set [FIRST_MESSAGE, IS_NEXT]) (rels g)"

definition same_messages :: "graph \<Rightarrow> graph \<Rightarrow> bool" where
  "same_messages g g' =
     ((\<forall>org_id user_id interaction_id.
          match_interaction g' org_id user_id interaction_id =
          match_interaction g org_id user_id interaction_id) \<and>
      (\<forall>m. block_props g' m = block_props g m) \<and>
      chain_rels_of g' = chain_rels_of g)"

text \<open>A node that is neither an interaction nor a message block.\<close>

fun is_plain :: "node \<Rightarrow> bool" where
  "is_plain (Interaction org usr agent iid created updated) = False"
| "is_plain (MessageBlock p) = False"
| "is_plain n = True"

section \<open>Evaluation\<close>

lemma var_expand_code [code]:
  "var_expand ts rs v = expand_each ts rs (out_rels ts rs v)"
  by (simp add: expand_each_def var_expand.simps[of ts rs v])

lemma expand_each_code [code]:
  "expand_each ts rs [] = []"
  "expand_each ts rs (r # rest) =
     (dst r # var_expand ts (remove1 r rs) (dst r)) @ expand_each ts rs rest"
  by (simp_all add: expand_each_def)


section \<open>Deleting one interaction\<close>

text \<open>
  C1. Deleting an interaction should remove the interaction, its message blocks and the
  memories whose \<open>INTERACTION_SOURCE\<close> is that interaction, and pass the ids read
  beforehand to the delete callback. The query looks for the memories along
  \<open>MESSAGE_SOURCE\<close> relationships that end at the interaction; the memories point to the
  interaction by \<open>INTERACTION_SOURCE\<close>. On the database with interaction \<open>i1\<close> (node 7,
  block 11) and its memory \<open>m\<close> (node 13), the interaction and the block go, the callback gets
  \<open>[m]\<close>, and the memory node is still there.
\<close>

theorem delete_leaves_owned_memory:
  "get_all_interaction_memories (db_saved [msg_a]) ''org'' ''u1'' ''i1'' = [''m''] \<and>
   in_nodes (db_saved [msg_a]) INTERACTION_SOURCE 7 = [13] \<and>
   (case delete_user_interaction_and_its_memories ''org'' ''u1'' ''i1'' recording_delete
           (db_saved [msg_a]) [] of
      (res, g, v) \<Rightarrow>
         res = Inr () \<and> v = [[''m'']] \<and> node_of g 7 = None \<and> node_of g 11 = None \<and>
         node_of g 13 =
           Some (Memory ''org'' ''u1'' ''agent'' ''i1'' ''m'' ''likes tea'' (DateTime 5 0)))"
  by code_simp

text \<open>
  C3. A date that no other interaction refers to should be removed with the interaction. The
  \<open>WHERE NOT (date)<-[:HAS_OCCURRENCE_ON]-()\<close> of the query is evaluated while the
  interaction's own relationship to the date exists, so no date ever passes it: in the
  database where interaction 7 is the only one on date 9, the interaction is deleted and the
  date stays, with nothing referring to it.
\<close>

theorem delete_leaves_unshared_date:
  "match_interaction (db_saved [msg_a]) ''org'' ''u1'' ''i1'' = [7] \<and>
   in_nodes (db_saved [msg_a]) HAS_OCCURRENCE_ON 9 = [7] \<and>
   (case delete_user_interaction_and_its_memories ''org'' ''u1'' ''i1'' recording_delete
           (db_saved [msg_a]) [] of
      (res, g, v) \<Rightarrow>
         res = Inr () \<and> node_of g 7 = None \<and>
         node_of g 9 = Some (Date ''org'' ''u1'' 5) \<and>
         in_nodes g HAS_OCCURRENCE_ON 9 = [])"
  by code_simp

lemma detach_delete_nothing: "detach_delete [] g = g"
  by (simp add: detach_delete_def)

text \<open>
  C10. When no message block is reachable from the interaction, the first \<open>MATCH\<close> of the
  delete query has no row, so nothing is deleted: the graph is unchanged, whatever else the
  interaction owns. The delete callback is still called with the memory ids read beforehand,
  and its outcome is the outcome of the operation.
\<close>

theorem delete_without_chain_keeps_graph:
  assumes "match_chain g org_id user_id interaction_id = []"
  shows "delete_user_interaction_and_its_memories org_id user_id interaction_id delete_fn g v =
         (case delete_fn (get_all_interaction_memories g org_id user_id interaction_id) v of
            (Some e, v1) \<Rightarrow> (Inl e, g, v1)
          | (None, v1) \<Rightarrow> (Inr (), g, v1))"
  using assms
  by (simp add: delete_user_interaction_and_its_memories_def execute_write_def delete_tx_def
        delete_interaction_query_def detach_delete_nothing split: prod.splits option.splits)

theorem delete_without_chain_keeps_graph_witness:
  "match_interaction db_bare_with_memory ''org'' ''u1'' ''i2'' = [7] \<and>
   match_chain db_bare_with_memory ''org'' ''u1'' ''i2'' = [] \<and>
   delete_user_interaction_and_its_memories ''org'' ''u1'' ''i2'' recording_delete
     db_bare_with_memory [] = (Inr (), db_bare_with_memory, [[''m9'']])"
proof -
  have h: "match_chain db_bare_with_memory ''org'' ''u1'' ''i2'' = []" by code_simp
  have i: "match_interaction db_bare_with_memory ''org'' ''u1'' ''i2'' = [7]" by code_simp
  have m: "get_all_interaction_memories db_bare_with_memory ''org'' ''u1'' ''i2'' = [''m9'']"
    by code_simp
  show ?thesis
    using delete_without_chain_keeps_graph[OF h, of recording_delete "[]"] h i m
    by (simp add: recording_delete_def)
qed

section \<open>Building and reading a chain\<close>

text \<open>
  C8. Reading a chain back after building it from the top should give the messages it was
  built from, and nothing for the empty list. For the empty list the query still creates the
  first block, with position 0 and neither role nor content (\<open>$messages[0]\<close> is \<open>null\<close>),
  and the read returns that block.
\<close>

theorem rebuild_empty_reads_phantom_block:
  "get_interaction_messages db_bare ''org'' ''u1'' ''i2'' = [] \<and>
   get_interaction_messages
     (add_messages_to_interaction_from_top ''org'' ''u1'' ''i2'' [] db_bare)
     ''org'' ''u1'' ''i2'' = [MessageProps 0 None None]"
  by code_simp

section \<open>Updating a chain\<close>

text \<open>
  C2. Every operation should leave one linear chain with positions 0, 1, 2, ... and no
  position twice; an update that differs from a stored, non-empty chain at index 0 should
  leave the incoming transcript. There \<open>truncate_from\<close> is 0, the value that also stands for
  an empty stored chain, and \<open>update_tx\<close> builds a second chain from the top beside the
  first: stored \<open>[a]\<close>, incoming \<open>[b]\<close> gives two blocks at position 0, both first messages
  of the interaction.
\<close>

theorem update_mismatch_at_zero_breaks_chain:
  "(case update_interaction_and_memories ''org'' ''agent'' ''u1'' ''i1''
           (transcript_only [msg_b] 5) recording_add uuid4_demo (db_saved [msg_a]) [] of
      (res, g, v) \<Rightarrow>
         res = Inr (''i1'', DateTime 5 0) \<and>
         get_interaction_messages g ''org'' ''u1'' ''i1'' =
           [MessageProps 0 (Some ''user'') (Some ''a''),
            MessageProps 0 (Some ''assistant'') (Some ''b'')] \<and>
         map dst (out_rels [FIRST_MESSAGE] (rels g) 7) = [11, 17])"
  by code_simp

text \<open>
  C5. With an incoming transcript at least as long as the stored one, the scan should give
  "build from the top" for an empty stored chain, "append" when every stored position
  matches, and otherwise "truncate and replace" at the first mismatch. A first mismatch at
  index 0 gives \<open>truncate_from = 0\<close>, which \<open>update_tx\<close> takes as "build from the top":
  stored \<open>[a, b]\<close>, incoming \<open>[c, b]\<close> removes no stored block.
\<close>

theorem mismatch_at_zero_is_taken_as_from_top:
  "get_interaction_messages (db_saved [msg_a, msg_b]) ''org'' ''u1'' ''i1'' =
     [MessageProps 0 (Some ''user'') (Some ''a''),
      MessageProps 1 (Some ''assistant'') (Some ''b'')] \<and>
   compute_truncate_from
     (get_interaction_messages (db_saved [msg_a, msg_b]) ''org'' ''u1'' ''i1'')
     [msg_c, msg_b] = Inr 0 \<and>
   update_messages ''org'' ''u1'' ''i1'' [msg_c, msg_b] 0 (db_saved [msg_a, msg_b]) =
     add_messages_to_interaction_from_top ''org'' ''u1'' ''i1'' [msg_c, msg_b]
       (db_saved [msg_a, msg_b]) \<and>
   get_interaction_messages
     (update_messages ''org'' ''u1'' ''i1'' [msg_c, msg_b] 0 (db_saved [msg_a, msg_b]))
     ''org'' ''u1'' ''i1'' =
     [MessageProps 0 (Some ''user'') (Some ''a''),
      MessageProps 1 (Some ''assistant'') (Some ''b''),
      MessageProps 0 (Some ''user'') (Some ''c''),
      MessageProps 1 (Some ''assistant'') (Some ''b'')]"
  by code_simp

section \<open>Saving: failure of the vector index\<close>

lemma read_no_interaction:
  "match_interaction g org_id user_id interaction_id = [] \<Longrightarrow>
   get_interaction_messages g org_id user_id interaction_id = []"
  by (simp add: get_interaction_messages_def match_chain_def)

lemma save_tx_callback_raises:
  assumes "new_memory_ids \<noteq> [] \<or> new_contrary_memory_ids \<noteq> []"
      and "add_fn org_id user_id agent_id (new_memory_ids @ new_contrary_memory_ids)
             (map fst (all_memories mi)) (interaction_date mi) v = (Some e, v1)"
  shows "save_tx org_id agent_id user_id mi add_fn interaction_id new_memory_ids
           new_contrary_memory_ids g v = (Inl e, v1) \<or>
         (\<exists>e'. save_tx org_id agent_id user_id mi add_fn interaction_id new_memory_ids
           new_contrary_memory_ids g v = (Inl e', v))"
proof (cases "add_memories_with_their_source_links org_id user_id agent_id interaction_id mi
                new_memory_ids new_contrary_memory_ids
                (add_messages_to_interaction_from_top org_id user_id interaction_id (interaction mi)
                   (create_interaction org_id user_id agent_id interaction_id
                      (interaction_date mi) g))")
  case (Inl e')
  with assms(1) show ?thesis by (auto simp add: save_tx_def Let_def)
next
  case (Inr g3)
  with assms show ?thesis by (auto simp add: save_tx_def Let_def)
qed

text \<open>
  C4. Saving with at least one memory, when the add callback raises on the batch it is given:
  the operation ends with that error, the graph is the one before the call, and the vector
  index is as the callback left it; nothing runs after the callback. (If the query that
  records the memories fails first, the callback is never reached, and the graph and the
  vector index are both as before.) The interaction id being new, reading its messages
  afterwards gives the empty list.
\<close>

theorem save_aborts_when_add_callback_raises:
  assumes nonempty: "memories mi \<noteq> [] \<or> contrary_memories mi \<noteq> []"
      and raises: "add_fn org_id user_id agent_id
                     (map uuid [0 ..< length (memories mi)] @
                      map uuid [length (memories mi) ..<
                                length (memories mi) + length (contrary_memories mi)])
                     (map fst (all_memories mi)) (interaction_date mi) v = (Some e, v1)"
      and fresh_id: "match_interaction g org_id user_id interaction_id = []"
  shows "(save_interaction_with_memories org_id agent_id user_id mi add_fn interaction_id uuid g v
            = (Inl e, g, v1) \<or>
          (\<exists>e'. save_interaction_with_memories org_id agent_id user_id mi add_fn interaction_id
                   uuid g v = (Inl e', g, v))) \<and>
         get_interaction_messages
           (fst (snd (save_interaction_with_memories org_id agent_id user_id mi add_fn
                        interaction_id uuid g v)))
           org_id user_id interaction_id = []"
proof -
  let ?ids = "map uuid [0 ..< length (memories mi)]"
  let ?cids = "map uuid [length (memories mi) ..<
                         length (memories mi) + length (contrary_memories mi)]"
  have ne: "?ids \<noteq> [] \<or> ?cids \<noteq> []" using nonempty by auto
  have "save_interaction_with_memories org_id agent_id user_id mi add_fn interaction_id uuid g v
            = (Inl e, g, v1) \<or>
          (\<exists>e'. save_interaction_with_memories org_id agent_id user_id mi add_fn interaction_id
                   uuid g v = (Inl e', g, v))"
    using save_tx_callback_raises[where add_fn = add_fn and new_memory_ids = "?ids"
              and new_contrary_memory_ids = "?cids" and interaction_id = interaction_id
              and g = g, OF ne raises]
    by (auto simp add: save_interaction_with_memories_def execute_write_def Let_def)
  then show ?thesis using read_no_interaction[OF fresh_id] by auto
qed

theorem save_aborts_when_add_callback_raises_witness:
  "(let mi = with_one_memory [msg_a, msg_b] 5;
        r = save_interaction_with_memories ''org'' ''agent'' ''u1'' mi raising_add ''i1''
              uuid4_demo db_user [[''old'']]
    in match_interaction db_user ''org'' ''u1'' ''i1'' = [] \<and>
       r = (Inl CallbackError, db_user, [[''old'']]) \<and>
       get_interaction_messages (fst (snd r)) ''org'' ''u1'' ''i1'' = [])"
proof -
  let ?mi = "with_one_memory [msg_a, msg_b] 5"
  have a: "memories ?mi \<noteq> [] \<or> contrary_memories ?mi \<noteq> []"
    by (simp add: with_one_memory_def)
  have b: "raising_add ''org'' ''u1'' ''agent''
             (map uuid4_demo [0 ..< length (memories ?mi)] @
              map uuid4_demo [length (memories ?mi) ..<
                              length (memories ?mi) + length (contrary_memories ?mi)])
             (map fst (all_memories ?mi)) (interaction_date ?mi) [[''old'']]
           = (Some CallbackError, [[''old'']])"
    by (simp add: raising_add_def)
  have c: "match_interaction db_user ''org'' ''u1'' ''i1'' = []" by code_simp
  have d: "save_interaction_with_memories ''org'' ''agent'' ''u1'' ?mi raising_add ''i1''
             uuid4_demo db_user [[''old'']] = (Inl CallbackError, db_user, [[''old'']])"
    by code_simp
  show ?thesis
    using save_aborts_when_add_callback_raises[where add_fn = raising_add and mi = "?mi"
              and uuid = uuid4_demo, OF a b c] a c d
    by (simp add: Let_def)
qed

section \<open>Linking contrary memories\<close>

lemma count_rels_pos:
  "(0 < count_rels g a t b) = (\<exists>r \<in> set (rels g). src r = a \<and> rtype r = t \<and> dst r = b)"
  by (auto simp add: count_rels_def filter_empty_conv)

lemma merge_rel_nodes [simp]: "nodes (merge_rel a t b g) = nodes g"
  by (simp add: merge_rel_def create_rel_def)

lemma merge_rels_nodes [simp]: "nodes (merge_rels xs g) = nodes g"
  by (induction xs g rule: merge_rels.induct) simp_all

lemma count_merge_rel:
  "count_rels (merge_rel a' t' b' g) a t b =
     (if (a', t', b') = (a, t, b) then max 1 (count_rels g a t b) else count_rels g a t b)"
proof (cases "\<exists>r \<in> set (rels g). src r = a' \<and> rtype r = t' \<and> dst r = b'")
  case True
  then have "merge_rel a' t' b' g = g" by (simp add: merge_rel_def)
  moreover have "(a', t', b') = (a, t, b) \<Longrightarrow> 0 < count_rels g a t b"
    using True by (simp add: count_rels_pos)
  ultimately show ?thesis by auto
next
  case False
  have m: "merge_rel a' t' b' g = create_rel a' t' b' g"
    unfolding merge_rel_def by (rule if_not_P) (rule False)
  have "(a', t', b') = (a, t, b) \<Longrightarrow> count_rels g a t b = 0"
    using False count_rels_pos[of g a t b] by auto
  then show ?thesis unfolding m by (auto simp add: count_rels_def create_rel_def)
qed

lemma count_merge_rels:
  "count_rels (merge_rels xs g) a t b =
     (if (a, t, b) \<in> set xs then max 1 (count_rels g a t b) else count_rels g a t b)"
proof (induction xs g rule: merge_rels.induct)
  case (1 g)
  then show ?case by simp
next
  case (2 a' t' b' xs g)
  show ?case unfolding merge_rels.simps "2.IH" count_merge_rel by auto
qed

lemma match_memory_nodes: "nodes g' = nodes g \<Longrightarrow> match_memory g' = match_memory g"
  by (simp add: match_memory_def fun_eq_iff)

lemma link_pairs_nodes [simp]: "nodes (link_pairs org_id user_id pairs g) = nodes g"
  by (induction org_id user_id pairs g rule: link_pairs.induct) simp_all

lemma count_link_pairs:
  "count_rels (link_pairs org_id user_id pairs g) old CONTRARY_UPDATE new =
     (if links g org_id user_id pairs old new
      then max 1 (count_rels g old CONTRARY_UPDATE new)
      else count_rels g old CONTRARY_UPDATE new)"
proof (induction org_id user_id pairs g rule: link_pairs.induct)
  case (1 org_id user_id g)
  then show ?case by (simp add: links_def)
next
  case (2 org_id user_id contrary_id existing_id pairs g)
  let ?batch = "concat (map (\<lambda>new_contrary_memory.
                          map (\<lambda>old_memory. (old_memory, CONTRARY_UPDATE, new_contrary_memory))
                              (match_memory g org_id user_id existing_id))
                       (match_memory g org_id user_id contrary_id))"
  have mm: "match_memory (merge_rels ?batch g) = match_memory g"
    by (rule match_memory_nodes) simp
  have l: "links (merge_rels ?batch g) org_id user_id pairs old new =
           links g org_id user_id pairs old new"
    by (simp add: links_def mm)
  have here: "((old, CONTRARY_UPDATE, new) \<in> set ?batch) =
              (new \<in> set (match_memory g org_id user_id contrary_id) \<and>
               old \<in> set (match_memory g org_id user_id existing_id))"
    by auto
  have split: "links g org_id user_id ((contrary_id, existing_id) # pairs) old new =
     ((new \<in> set (match_memory g org_id user_id contrary_id) \<and>
       old \<in> set (match_memory g org_id user_id existing_id)) \<or>
      links g org_id user_id pairs old new)"
    by (simp add: links_def)
  show ?case
    unfolding link_pairs.simps "2.IH" l count_merge_rels here split by auto
qed

lemma link_update_nodes:
  "nodes (link_update_contrary_memories_to_existing_memories org_id user_id ids mi g) = nodes g"
  by (simp add: link_update_contrary_memories_to_existing_memories_def)

lemma links_nodes: "nodes g' = nodes g \<Longrightarrow> links g' = links g"
  using match_memory_nodes[of g' g] by (simp add: links_def fun_eq_iff)

lemma count_relink:
  assumes "links g org_id user_id
             (map (\<lambda>(contrary_memory_id, contrary_memory_obj).
                     (contrary_memory_id, existing_contrary_memory_id contrary_memory_obj))
                  (zip ids (contrary_memories mi))) old new"
  shows "count_rels
           ((link_update_contrary_memories_to_existing_memories org_id user_id ids mi ^^ Suc n) g)
           old CONTRARY_UPDATE new = max 1 (count_rels g old CONTRARY_UPDATE new)"
  using assms
proof (induction n arbitrary: g)
  case 0
  then show ?case
    by (simp add: link_update_contrary_memories_to_existing_memories_def count_link_pairs)
next
  case (Suc n)
  let ?f = "link_update_contrary_memories_to_existing_memories org_id user_id ids mi"
  have "links (?f g) = links g" by (rule links_nodes) (rule link_update_nodes)
  with Suc.prems have l: "links (?f g) org_id user_id
             (map (\<lambda>(contrary_memory_id, contrary_memory_obj).
                     (contrary_memory_id, existing_contrary_memory_id contrary_memory_obj))
                  (zip ids (contrary_memories mi))) old new" by simp
  have "(?f ^^ Suc (Suc n)) g = (?f ^^ Suc n) (?f g)" by (simp add: funpow_swap1)
  then have "count_rels ((?f ^^ Suc (Suc n)) g) old CONTRARY_UPDATE new =
             max 1 (count_rels (?f g) old CONTRARY_UPDATE new)"
    using Suc.IH[OF l] by simp
  also have "count_rels (?f g) old CONTRARY_UPDATE new = max 1 (count_rels g old CONTRARY_UPDATE new)"
    using Suc.prems
    by (simp add: link_update_contrary_memories_to_existing_memories_def count_link_pairs)
  finally show ?case by simp
qed

text \<open>
  C9. Linking is idempotent. Take a batch in which a pair names the memory node \<open>new\<close> as
  contrary to the memory node \<open>old\<close>, and a graph with at most one \<open>CONTRARY_UPDATE\<close>
  relationship from \<open>old\<close> to \<open>new\<close>. After the batch has been linked once or more
  often, there is exactly one such relationship.
\<close>

theorem relinking_keeps_one_edge:
  assumes pair: "(new_id, c) \<in> set (zip ids (contrary_memories mi))"
      and new: "new \<in> set (match_memory g org_id user_id new_id)"
      and old: "old \<in> set (match_memory g org_id user_id (existing_contrary_memory_id c))"
      and once: "count_rels g old CONTRARY_UPDATE new \<le> 1"
  shows "count_rels
           ((link_update_contrary_memories_to_existing_memories org_id user_id ids mi ^^ Suc n) g)
           old CONTRARY_UPDATE new = 1"
proof -
  have "links g org_id user_id
             (map (\<lambda>(contrary_memory_id, contrary_memory_obj).
                     (contrary_memory_id, existing_contrary_memory_id contrary_memory_obj))
                  (zip ids (contrary_memories mi))) old new"
    unfolding links_def using pair new old
    by (intro bexI[where x = "(new_id, existing_contrary_memory_id c)"]) (auto intro: rev_image_eqI)
  from count_relink[OF this] once show ?thesis by simp
qed

theorem relinking_keeps_one_edge_witness:
  "(''n'', \<lparr>memory = ''likes coffee'', source_msg_block_pos = [0],
          existing_contrary_memory_id = ''m''\<rparr>) \<in> set (zip [''n''] (contrary_memories (with_one_contrary [msg_c] 6))) \<and>
   match_memory db_contrary ''org'' ''u1'' ''n'' = [23] \<and>
   match_memory db_contrary ''org'' ''u1'' ''m'' = [13] \<and>
   count_rels db_contrary 13 CONTRARY_UPDATE 23 = 1 \<and>
   count_rels
     ((link_update_contrary_memories_to_existing_memories ''org'' ''u1'' [''n'']
         (with_one_contrary [msg_c] 6) ^^ Suc 2) db_contrary)
     13 CONTRARY_UPDATE 23 = 1"
proof -
  let ?c = "\<lparr>memory = ''likes coffee'', source_msg_block_pos = [0],
          existing_contrary_memory_id = ''m''\<rparr>"
  have p: "(''n'', ?c) \<in> set (zip [''n''] (contrary_memories (with_one_contrary [msg_c] 6)))"
    by (simp add: with_one_contrary_def)
  have n: "match_memory db_contrary ''org'' ''u1'' ''n'' = [23]" by code_simp
  have m: "match_memory db_contrary ''org'' ''u1'' ''m'' = [13]" by code_simp
  have k: "count_rels db_contrary 13 CONTRARY_UPDATE 23 = 1" by code_simp
  have n': "23 \<in> set (match_memory db_contrary ''org'' ''u1'' ''n'')" using n by simp
  have m': "13 \<in> set (match_memory db_contrary ''org'' ''u1'' (existing_contrary_memory_id ?c))" using m by simp
  have k': "count_rels db_contrary 13 CONTRARY_UPDATE 23 \<le> 1" using k by simp
  have r: "count_rels
     ((link_update_contrary_memories_to_existing_memories ''org'' ''u1'' [''n'']
         (with_one_contrary [msg_c] 6) ^^ Suc 2) db_contrary)
     13 CONTRARY_UPDATE 23 = 1"
    by (rule relinking_keeps_one_edge[OF p n' m' k'])
  show ?thesis by (intro conjI p n m k r)
qed

section \<open>The comparison loop\<close>

lemma compare_messages_raises:
  assumes "length incoming < length existing_messages"
      and "\<forall>j < length incoming. agrees existing_messages incoming j"
      and "i \<le> length incoming"
  shows "compare_messages existing_messages incoming i t =
         Inl (if role_prop (existing_messages ! length incoming) = None then KeyError
              else IndexError)"
  using assms
proof (induction "length incoming - i" arbitrary: i)
  case 0
  then have "i = length incoming" by simp
  with 0 show ?case
    by (subst compare_messages.simps) (auto split: option.splits)
next
  case (Suc n)
  then have lt: "i < length incoming" by simp
  with Suc.prems have a: "agrees existing_messages incoming i" by simp
  have n: "n = length incoming - Suc i" using Suc.hyps(2) by simp
  have "compare_messages existing_messages incoming (Suc i) t =
        Inl (if role_prop (existing_messages ! length incoming) = None then KeyError
             else IndexError)"
    using Suc.hyps(1)[OF n Suc.prems(1,2)] lt by simp
  with a lt Suc.prems(1) show ?case
    by (subst compare_messages.simps) (simp add: agrees_def)
qed

lemma compare_messages_result:
  assumes "compare_messages existing_messages incoming i t = Inr r"
  shows "(r = t \<and> (\<forall>j. i \<le> j \<and> j < length existing_messages \<longrightarrow>
                      j < length incoming \<and> agrees existing_messages incoming j)) \<or>
         (\<exists>k. r = int k \<and> i \<le> k \<and> k < length existing_messages \<and> k < length incoming \<and>
              \<not> agrees existing_messages incoming k \<and>
              (\<forall>j. i \<le> j \<and> j < k \<longrightarrow> agrees existing_messages incoming j))"
  using assms
proof (induction existing_messages incoming i t rule: compare_messages.induct)
  case (1 ex inc i t)
  show ?case
  proof (cases "i < length ex")
    case False
    with "1.prems" have "r = t" by (subst (asm) compare_messages.simps) simp
    with False show ?thesis by auto
  next
    case True
    note lt = True
    show ?thesis
    proof (cases "agrees ex inc i \<and> i < length inc")
      case True
      then have rec: "compare_messages ex inc (Suc i) t = Inr r"
        using "1.prems" lt by (subst (asm) compare_messages.simps) (simp add: agrees_def)
      from True have "role_prop (ex ! i) = Some (role (inc ! i))"
        and c: "content_prop (ex ! i) = Some (content (inc ! i))" by (simp_all add: agrees_def)
      from "1.IH"[OF lt this(1) _ _ c _ rec] True
      have IH: "(r = t \<and> (\<forall>j. Suc i \<le> j \<and> j < length ex \<longrightarrow>
                      j < length inc \<and> agrees ex inc j)) \<or>
         (\<exists>k. r = int k \<and> Suc i \<le> k \<and> k < length ex \<and> k < length inc \<and>
              \<not> agrees ex inc k \<and>
              (\<forall>j. Suc i \<le> j \<and> j < k \<longrightarrow> agrees ex inc j))" by simp
      then show ?thesis
      proof
        assume a: "r = t \<and> (\<forall>j. Suc i \<le> j \<and> j < length ex \<longrightarrow> j < length inc \<and> agrees ex inc j)"
        have "\<forall>j. i \<le> j \<and> j < length ex \<longrightarrow> j < length inc \<and> agrees ex inc j"
        proof (intro allI impI)
          fix j assume "i \<le> j \<and> j < length ex"
          then show "j < length inc \<and> agrees ex inc j"
            using a True by (cases "j = i") auto
        qed
        with a show ?thesis by simp
      next
        assume "\<exists>k. r = int k \<and> Suc i \<le> k \<and> k < length ex \<and> k < length inc \<and>
              \<not> agrees ex inc k \<and> (\<forall>j. Suc i \<le> j \<and> j < k \<longrightarrow> agrees ex inc j)"
        then obtain k where k: "r = int k" "Suc i \<le> k" "k < length ex" "k < length inc"
              "\<not> agrees ex inc k" "\<forall>j. Suc i \<le> j \<and> j < k \<longrightarrow> agrees ex inc j" by blast
        have "\<forall>j. i \<le> j \<and> j < k \<longrightarrow> agrees ex inc j"
        proof (intro allI impI)
          fix j assume "i \<le> j \<and> j < k"
          then show "agrees ex inc j" using k(6) True by (cases "j = i") auto
        qed
        with k show ?thesis by (intro disjI2 exI[where x = k]) simp
      qed
    next
      case False
      with "1.prems" lt have "r = int i \<and> i < length inc"
        by (subst (asm) compare_messages.simps)
           (auto simp add: agrees_def split: option.splits if_splits)
      with False lt show ?thesis by (intro disjI2 exI[where x = i]) auto
    qed
  qed
qed

text \<open>
  C7, as the code has it. When the incoming transcript is strictly shorter than the stored one
  and agrees with it wherever both have a message, the comparison loop reaches the index just
  past the incoming transcript and raises there: \<open>KeyError\<close> when the stored block at that
  index has no role, \<open>IndexError\<close> otherwise. No directive is computed, no transaction is
  opened, and the graph and the vector index are unchanged, so the stored tail stays in place.
\<close>

theorem shorter_incoming_raises:
  assumes shorter: "length (interaction mi) <
                    length (get_interaction_messages g org_id user_id interaction_id)"
      and same: "\<forall>j < length (interaction mi).
                   agrees (get_interaction_messages g org_id user_id interaction_id)
                          (interaction mi) j"
  shows "compute_truncate_from (get_interaction_messages g org_id user_id interaction_id)
           (interaction mi) =
           Inl (if role_prop (get_interaction_messages g org_id user_id interaction_id !
                              length (interaction mi)) = None
                then KeyError else IndexError) \<and>
         update_interaction_and_memories org_id agent_id user_id interaction_id mi add_fn uuid g v
           = (Inl (if role_prop (get_interaction_messages g org_id user_id interaction_id !
                                 length (interaction mi)) = None
                   then KeyError else IndexError), g, v)"
proof -
  let ?ex = "get_interaction_messages g org_id user_id interaction_id"
  have "compute_truncate_from ?ex (interaction mi) =
        Inl (if role_prop (?ex ! length (interaction mi)) = None then KeyError else IndexError)"
    unfolding compute_truncate_from_def
    by (rule compare_messages_raises[OF shorter same]) simp
  then show ?thesis by (simp add: update_interaction_and_memories_def Let_def)
qed

theorem shorter_incoming_raises_witness:
  "update_interaction_and_memories ''org'' ''agent'' ''u1'' ''i1'' (transcript_only [msg_a] 6)
     recording_add uuid4_demo (db_saved [msg_a, msg_b]) [] =
     (Inl IndexError, db_saved [msg_a, msg_b], []) \<and>
   update_interaction_and_memories ''org'' ''agent'' ''u1'' ''i2'' (transcript_only [] 8)
     recording_add uuid4_demo
     (add_messages_to_interaction_from_top ''org'' ''u1'' ''i2'' [] db_bare) [] =
     (Inl KeyError, add_messages_to_interaction_from_top ''org'' ''u1'' ''i2'' [] db_bare, [])"
proof -
  let ?mi = "transcript_only [msg_a] 6"
  let ?g = "db_saved [msg_a, msg_b]"
  have ex: "get_interaction_messages ?g ''org'' ''u1'' ''i1'' =
     [MessageProps 0 (Some ''user'') (Some ''a''),
      MessageProps 1 (Some ''assistant'') (Some ''b'')]" by code_simp
  have inc: "interaction ?mi = [msg_a]" by (simp add: transcript_only_def)
  have a: "length (interaction ?mi) < length (get_interaction_messages ?g ''org'' ''u1'' ''i1'')"
    unfolding ex inc by simp
  have b: "\<forall>j < length (interaction ?mi).
             agrees (get_interaction_messages ?g ''org'' ''u1'' ''i1'') (interaction ?mi) j"
    unfolding ex inc by (simp add: agrees_def msg_a_def)
  have 1: "update_interaction_and_memories ''org'' ''agent'' ''u1'' ''i1'' ?mi
             recording_add uuid4_demo ?g [] = (Inl IndexError, ?g, [])"
    using shorter_incoming_raises[OF a b, of "''agent''" recording_add uuid4_demo "[]"]
    unfolding ex inc by simp
  let ?mi2 = "transcript_only [] 8"
  let ?g2 = "add_messages_to_interaction_from_top ''org'' ''u1'' ''i2'' [] db_bare"
  have ex2: "get_interaction_messages ?g2 ''org'' ''u1'' ''i2'' = [MessageProps 0 None None]"
    by code_simp
  have inc2: "interaction ?mi2 = []" by (simp add: transcript_only_def)
  have a2: "length (interaction ?mi2) < length (get_interaction_messages ?g2 ''org'' ''u1'' ''i2'')"
    unfolding ex2 inc2 by simp
  have b2: "\<forall>j < length (interaction ?mi2).
             agrees (get_interaction_messages ?g2 ''org'' ''u1'' ''i2'') (interaction ?mi2) j"
    unfolding inc2 by simp
  have 2: "update_interaction_and_memories ''org'' ''agent'' ''u1'' ''i2'' ?mi2
             recording_add uuid4_demo ?g2 [] = (Inl KeyError, ?g2, [])"
    using shorter_incoming_raises[OF a2 b2, of "''agent''" recording_add uuid4_demo "[]"]
    unfolding ex2 inc2 by simp
  show ?thesis using 1 2 by (rule conjI)
qed

text \<open>
  C7, as stated, fails: for the stored chain \<open>[a, b]\<close> and the incoming transcript \<open>[a]\<close> the
  comparison does not complete with "append"; it raises \<open>IndexError\<close>.
\<close>

theorem shorter_incoming_counterexample:
  "compute_truncate_from
     [MessageProps 0 (Some ''user'') (Some ''a''),
      MessageProps 1 (Some ''assistant'') (Some ''b'')]
     [Message ''user'' ''a''] = Inl IndexError"
  by code_simp

section \<open>Chains\<close>

subsection \<open>Following a chain\<close>

lemma out_rels_remove1_other:
  "src r \<noteq> v \<Longrightarrow> out_rels ts (remove1 r rs) v = out_rels ts rs v"
  by (induction rs) (auto simp add: out_rels_def)

lemma succs_remove1_other:
  "src r \<noteq> v \<Longrightarrow> succs ts (remove1 r rs) v = succs ts rs v"
  by (simp add: succs_def out_rels_remove1_other)

lemma out_rels_src: "r \<in> set (out_rels ts rs v) \<Longrightarrow> src r = v"
  by (simp add: out_rels_def)

lemma succs_single:
  "succs ts rs v = [b] \<Longrightarrow> \<exists>r. out_rels ts rs v = [r] \<and> dst r = b \<and> src r = v"
proof -
  assume a: "succs ts rs v = [b]"
  then obtain r where r: "out_rels ts rs v = [r]" "dst r = b"
    by (auto simp add: succs_def map_eq_Cons_conv)
  then have "src r = v" using out_rels_src[of r ts rs v] by simp
  with r show ?thesis by blast
qed

lemma chain_from_remove1:
  "src r \<notin> set (v # bs) \<Longrightarrow> chain_from (remove1 r rs) t v bs = chain_from rs t v bs"
  by (induction bs arbitrary: v t) (auto simp add: succs_remove1_other)

lemma var_expand_chain:
  "distinct (v # bs) \<Longrightarrow> chain_from rs t v bs \<Longrightarrow>
   var_expand [FIRST_MESSAGE, IS_NEXT] rs v = bs"
proof (induction bs arbitrary: v t rs)
  case Nil
  then show ?case by (subst var_expand.simps) (simp add: succs_def)
next
  case (Cons b bs)
  from Cons.prems(2) obtain r where r: "out_rels [FIRST_MESSAGE, IS_NEXT] rs v = [r]"
      "dst r = b" "src r = v"
    using succs_single[of "[FIRST_MESSAGE, IS_NEXT]" rs v b] by auto
  have "src r \<notin> set (b # bs)" using r(3) Cons.prems(1) by auto
  then have "chain_from (remove1 r rs) IS_NEXT b bs"
    using Cons.prems(2) by (simp add: chain_from_remove1)
  moreover have "distinct (b # bs)" using Cons.prems(1) by simp
  ultimately have "var_expand [FIRST_MESSAGE, IS_NEXT] (remove1 r rs) b = bs"
    by (rule Cons.IH[rotated])
  then show ?case using r by (subst var_expand.simps) simp
qed

lemma fixed_expand_chain:
  "distinct (v # bs) \<Longrightarrow> chain_from rs t v bs \<Longrightarrow> k \<le> length bs \<Longrightarrow>
   fixed_expand [FIRST_MESSAGE, IS_NEXT] rs v k = [(v # bs) ! k]"
proof (induction bs arbitrary: v t rs k)
  case Nil
  then show ?case by simp
next
  case (Cons b bs)
  show ?case
  proof (cases k)
    case 0
    then show ?thesis by simp
  next
    case (Suc k')
    from Cons.prems(2) obtain r where r: "out_rels [FIRST_MESSAGE, IS_NEXT] rs v = [r]"
        "dst r = b" "src r = v"
      using succs_single[of "[FIRST_MESSAGE, IS_NEXT]" rs v b] by auto
    have "src r \<notin> set (b # bs)" using r(3) Cons.prems(1) by auto
    then have c: "chain_from (remove1 r rs) IS_NEXT b bs"
      using Cons.prems(2) by (simp add: chain_from_remove1)
    have d: "distinct (b # bs)" using Cons.prems(1) by simp
    have "fixed_expand [FIRST_MESSAGE, IS_NEXT] (remove1 r rs) b k' = [(b # bs) ! k']"
      using Cons.IH[OF d c] Cons.prems(3) Suc by simp
    then show ?thesis using r Suc by simp
  qed
qed

text \<open>Below the first block only \<open>IS_NEXT\<close> relationships are followed.\<close>

lemma out_rels_next_of_both:
  "out_rels [IS_NEXT] rs v =
   filter (\<lambda>r. rtype r = IS_NEXT) (out_rels [FIRST_MESSAGE, IS_NEXT] rs v)"
  by (auto simp add: out_rels_def intro: filter_cong)

lemma succs_next_empty:
  "succs [FIRST_MESSAGE, IS_NEXT] rs v = [] \<Longrightarrow> succs [IS_NEXT] rs v = []"
  by (simp add: succs_def out_rels_next_of_both)

lemma var_expand_next_chain:
  "distinct (v # bs) \<Longrightarrow> chain_from rs IS_NEXT v bs \<Longrightarrow> var_expand [IS_NEXT] rs v = bs"
proof (induction bs arbitrary: v rs)
  case Nil
  then have "succs [IS_NEXT] rs v = []" by (simp add: succs_next_empty)
  then show ?case by (subst var_expand.simps) (simp add: succs_def)
next
  case (Cons b bs)
  from Cons.prems(2) obtain r where r: "out_rels [IS_NEXT] rs v = [r]"
      "dst r = b" "src r = v"
    using succs_single[of "[IS_NEXT]" rs v b] by auto
  have "src r \<notin> set (b # bs)" using r(3) Cons.prems(1) by auto
  then have "chain_from (remove1 r rs) IS_NEXT b bs"
    using Cons.prems(2) by (simp add: chain_from_remove1)
  moreover have "distinct (b # bs)" using Cons.prems(1) by simp
  ultimately have "var_expand [IS_NEXT] (remove1 r rs) b = bs"
    by (rule Cons.IH[rotated])
  then show ?case using r by (subst var_expand.simps) simp
qed

lemma chain_from_drop:
  "chain_from rs t v bs \<Longrightarrow> 0 < k \<Longrightarrow> k \<le> length bs \<Longrightarrow>
   chain_from rs IS_NEXT (bs ! (k - 1)) (drop k bs)"
proof (induction bs arbitrary: v t k)
  case Nil
  then show ?case by simp
next
  case (Cons b bs)
  show ?case
  proof (cases "k = 1")
    case True
    with Cons.prems show ?thesis by simp
  next
    case False
    with Cons.prems obtain k' where k': "k = Suc k'" "0 < k'" "k' \<le> length bs"
      by (cases k) auto
    from Cons.prems(1) have "chain_from rs IS_NEXT b bs" by simp
    from Cons.IH[OF this k'(2,3)] k' show ?thesis by (cases k') simp_all
  qed
qed

subsection \<open>Reading a chain\<close>

lemma block_props_is_message_block: "block_props g b = Some p \<Longrightarrow> is_message_block g b"
  by (auto simp add: block_props_def is_message_block_def split: option.splits node.splits)

lemma blocks_are_message_blocks:
  "map (block_props g) bs = map Some ps \<Longrightarrow> filter (is_message_block g) bs = bs"
proof (induction bs arbitrary: ps)
  case Nil
  then show ?case by simp
next
  case (Cons b bs)
  then obtain p ps' where "ps = p # ps'" "block_props g b = Some p"
      "map (block_props g) bs = map Some ps'" by (cases ps) auto
  with Cons.IH show ?case by (simp add: block_props_is_message_block)
qed

lemma read_blocks:
  "map (block_props g) bs = map Some ps \<Longrightarrow>
   concat (map (\<lambda>m. case block_props g m of Some p \<Rightarrow> [p] | None \<Rightarrow> []) bs) = ps"
proof (induction bs arbitrary: ps)
  case Nil
  then show ?case by simp
next
  case (Cons b bs)
  then obtain p ps' where "ps = p # ps'" "block_props g b = Some p"
      "map (block_props g) bs = map Some ps'" by (cases ps) auto
  with Cons.IH show ?case by simp
qed

lemma holds_chain_match_chain:
  assumes "holds_chain g org_id user_id interaction_id i bs ps"
  shows "match_chain g org_id user_id interaction_id = map (Pair i) bs"
proof -
  from assms have "var_expand [FIRST_MESSAGE, IS_NEXT] (rels g) i = bs"
    by (auto simp add: holds_chain_def intro: var_expand_chain)
  moreover from assms have "filter (is_message_block g) bs = bs"
    by (auto simp add: holds_chain_def intro: blocks_are_message_blocks)
  ultimately show ?thesis using assms by (simp add: match_chain_def holds_chain_def)
qed

lemma holds_chain_read:
  assumes "holds_chain g org_id user_id interaction_id i bs ps"
  shows "get_interaction_messages g org_id user_id interaction_id = ps"
proof -
  have "map (block_props g) bs = map Some ps" using assms by (simp add: holds_chain_def)
  from read_blocks[OF this] show ?thesis
    by (simp add: get_interaction_messages_def holds_chain_match_chain[OF assms] comp_def)
qed

subsection \<open>Deleting nodes\<close>

lemma map_of_filter_fst:
  "map_of (filter (\<lambda>p. fst p \<notin> D) xs) v = (if v \<in> D then None else map_of xs v)"
  by (induction xs) auto

lemma node_of_detach_delete:
  "node_of (detach_delete ds g) v = (if v \<in> set ds then None else node_of g v)"
  by (simp add: node_of_def detach_delete_def map_of_filter_fst)

lemma block_props_detach_delete:
  "v \<notin> set ds \<Longrightarrow> block_props (detach_delete ds g) v = block_props g v"
  by (simp add: block_props_def node_of_detach_delete)

lemma match_interaction_detach_delete:
  "match_interaction (detach_delete ds g) org_id user_id interaction_id =
   filter (\<lambda>j. j \<notin> set ds) (match_interaction g org_id user_id interaction_id)"
  by (simp add: match_interaction_def detach_delete_def filter_map comp_def conj_commute)

lemma succs_detach:
  "succs ts (filter (\<lambda>r. src r \<notin> D \<and> dst r \<notin> D) rs) v =
   (if v \<in> D then [] else filter (\<lambda>b. b \<notin> D) (succs ts rs v))"
  by (induction rs) (auto simp add: succs_def out_rels_def)

lemma chain_from_truncated:
  "chain_from rs t v bs \<Longrightarrow> distinct (v # bs) \<Longrightarrow>
   chain_from (filter (\<lambda>r. src r \<notin> set (drop k bs) \<and> dst r \<notin> set (drop k bs)) rs) t v
     (take k bs)"
proof (induction bs arbitrary: v t k)
  case Nil
  then show ?case by (simp add: succs_detach)
next
  case (Cons b bs)
  show ?case
  proof (cases k)
    case 0
    have "succs [FIRST_MESSAGE, IS_NEXT]
            (filter (\<lambda>r. src r \<notin> set (b # bs) \<and> dst r \<notin> set (b # bs)) rs) v = []"
      unfolding succs_detach using Cons.prems by simp
    with 0 show ?thesis by simp
  next
    case (Suc k')
    have nv: "v \<notin> set (drop k' bs)" and nb: "b \<notin> set (drop k' bs)"
      using Cons.prems(2) by (auto dest: in_set_dropD)
    have "chain_from (filter (\<lambda>r. src r \<notin> set (drop k' bs) \<and> dst r \<notin> set (drop k' bs)) rs)
            IS_NEXT b (take k' bs)"
      using Cons.IH[of IS_NEXT b k'] Cons.prems by simp
    with Cons.prems(1) nv nb Suc show ?thesis by (simp add: succs_detach)
  qed
qed

lemma wf_graph_detach_delete: "wf_graph g \<Longrightarrow> wf_graph (detach_delete ds g)"
  by (simp add: wf_graph_def detach_delete_def)

lemma holds_chain_truncated:
  assumes h: "holds_chain g org_id user_id interaction_id i bs ps"
  shows "holds_chain (detach_delete (drop k bs) g) org_id user_id interaction_id i
           (take k bs) (take k ps)"
proof -
  from h have mi: "match_interaction g org_id user_id interaction_id = [i]"
    and d: "distinct (i # bs)" and c: "chain_from (rels g) FIRST_MESSAGE i bs"
    and p: "map (block_props g) bs = map Some ps"
    and n: "map msg_position ps = map int [0 ..< length ps]"
    by (simp_all add: holds_chain_def)
  have ni: "i \<notin> set (drop k bs)" using d by (auto dest: in_set_dropD)
  have 1: "match_interaction (detach_delete (drop k bs) g) org_id user_id interaction_id = [i]"
    by (simp add: match_interaction_detach_delete mi ni)
  have 2: "distinct (i # take k bs)" using d by (auto dest: in_set_takeD)
  have 3: "chain_from (rels (detach_delete (drop k bs) g)) FIRST_MESSAGE i (take k bs)"
    using chain_from_truncated[OF c d, of k] by (simp add: detach_delete_def)
  have "\<forall>b \<in> set (take k bs). b \<notin> set (drop k bs)"
    using d by (metis append_take_drop_id distinct.simps(2) distinct_append disjoint_iff)
  then have "map (block_props (detach_delete (drop k bs) g)) (take k bs) =
             map (block_props g) (take k bs)"
    by (simp add: block_props_detach_delete)
  also have "\<dots> = map Some (take k ps)" using p by (simp add: take_map[symmetric])
  finally have 4: "map (block_props (detach_delete (drop k bs) g)) (take k bs) =
                   map Some (take k ps)" .
  have "map msg_position (take k ps) = take k (map msg_position ps)"
    by (simp add: take_map)
  also have "\<dots> = take k (map int [0 ..< length ps])" by (simp only: n)
  also have "\<dots> = map int [0 ..< length (take k ps)]"
    by (simp add: take_map take_upt min_def)
  finally have 5: "map msg_position (take k ps) = map int [0 ..< length (take k ps)]" .
  show ?thesis unfolding holds_chain_def using 1 2 3 4 5 by simp
qed

lemma truncate_messages_chain:
  assumes h: "holds_chain g org_id user_id interaction_id i bs ps"
      and k: "0 < k" "k \<le> length bs"
  shows "truncate_messages org_id user_id interaction_id k g = detach_delete (drop k bs) g"
proof -
  from h have mi: "match_interaction g org_id user_id interaction_id = [i]"
    and d: "distinct (i # bs)" and c: "chain_from (rels g) FIRST_MESSAGE i bs"
    and p: "map (block_props g) bs = map Some ps"
    by (simp_all add: holds_chain_def)
  have f: "fixed_expand [FIRST_MESSAGE, IS_NEXT] (rels g) i k = [bs ! (k - 1)]"
    using fixed_expand_chain[OF d c k(2)] k(1) by (cases k) simp_all
  have "bs ! (k - 1) \<in> set bs" using k by simp
  then have "bs ! (k - 1) \<in> set (filter (is_message_block g) bs)"
    using blocks_are_message_blocks[OF p] by simp
  then have m: "is_message_block g (bs ! (k - 1))" by simp
  have dd: "distinct (bs ! (k - 1) # drop k bs)"
  proof -
    have "bs ! (k - 1) # drop k bs = drop (k - 1) bs"
      using k by (cases k) (simp_all add: Cons_nth_drop_Suc)
    then show ?thesis using d by simp
  qed
  have "var_expand [IS_NEXT] (rels g) (bs ! (k - 1)) = drop k bs"
    using var_expand_next_chain[OF dd chain_from_drop[OF c k]] .
  with mi f m show ?thesis by (simp add: truncate_messages_def)
qed

subsection \<open>Creating nodes and relationships\<close>

lemma create_nodes_eq:
  "create_nodes ns g =
     ([fresh g ..< fresh g + length ns],
      Graph (nodes g @ zip [fresh g ..< fresh g + length ns] ns) (rels g)
            (fresh g + length ns))"
proof (induction ns arbitrary: g)
  case Nil
  then show ?case by simp
next
  case (Cons n ns)
  have u: "[fresh g ..< Suc (fresh g + length ns)] =
           fresh g # [Suc (fresh g) ..< Suc (fresh g + length ns)]"
    by (rule upt_conv_Cons) simp
  show ?case by (simp add: create_node_def Cons.IH u del: upt_Suc)
qed

lemma create_rels_nodes [simp]: "nodes (create_rels xs g) = nodes g"
  by (induction xs g rule: create_rels.induct) (simp_all add: create_rel_def)

lemma create_rels_fresh [simp]: "fresh (create_rels xs g) = fresh g + length xs"
  by (induction xs g rule: create_rels.induct) (simp_all add: create_rel_def)

lemma succs_append: "succs ts (rs @ rs') v = succs ts rs v @ succs ts rs' v"
  by (simp add: succs_def out_rels_def)

lemma succs_create_rel:
  "succs ts (rels (create_rel a t b g)) v =
   succs ts (rels g) v @ (if a = v \<and> t \<in> set ts then [b] else [])"
  by (simp add: create_rel_def succs_def out_rels_def)

lemma next_in_notin: "u \<notin> set xs \<Longrightarrow> next_in xs u = []"
  by (induction xs u rule: next_in.induct) auto

lemma succs_create_chain:
  "distinct xs \<Longrightarrow>
   succs ts (rels (create_rels (map (\<lambda>(a, b). (a, IS_NEXT, b)) (zip xs (tl xs))) g)) u =
   succs ts (rels g) u @ (if IS_NEXT \<in> set ts then next_in xs u else [])"
proof (induction xs arbitrary: g)
  case Nil
  then show ?case by simp
next
  case (Cons x ys)
  show ?case
  proof (cases ys)
    case Nil
    then show ?thesis by simp
  next
    case (Cons y zs)
    have d: "distinct ys" using Cons.prems by simp
    have nx: "next_in ys x = []" using Cons.prems by (intro next_in_notin) simp
    have "succs ts (rels (create_rels (map (\<lambda>(a, b). (a, IS_NEXT, b)) (zip ys (tl ys)))
                     (create_rel x IS_NEXT y g))) u =
          succs ts (rels (create_rel x IS_NEXT y g)) u @
            (if IS_NEXT \<in> set ts then next_in ys u else [])"
      by (rule Cons.IH[OF d])
    then show ?thesis using nx Cons by (simp add: succs_create_rel)
  qed
qed

subsection \<open>Extending a chain\<close>

lemma upto_as_upt: "[int a .. int b - 1] = map int [a ..< b]"
proof (rule nth_equalityI)
  show "length [int a .. int b - 1] = length (map int [a ..< b])" by simp
next
  fix k assume "k < length [int a .. int b - 1]"
  then have "k < b - a" by simp
  then show "[int a .. int b - 1] ! k = map int [a ..< b] ! k" by (simp add: nth_upto)
qed

lemma chain_rels_zip:
  "chain_rels xs = map (\<lambda>(a, b). (a, IS_NEXT, b)) (zip xs (tl xs))"
proof -
  have "[1 .. int (length xs) - 1] = map int [1 ..< length xs]"
    using upto_as_upt[of 1 "length xs"] by simp
  then have "chain_rels xs = map (\<lambda>j. (xs ! (j - 1), IS_NEXT, xs ! j)) [1 ..< length xs]"
    by (simp add: chain_rels_def comp_def nat_diff_distrib')
  also have "\<dots> = map (\<lambda>(a, b). (a, IS_NEXT, b)) (zip xs (tl xs))"
    by (rule nth_equalityI) (auto simp add: nth_tl)
  finally show ?thesis .
qed

lemma collect_by_one_key:
  "ys \<noteq> [] \<Longrightarrow> collect_by (map (Pair k) ys) = [(k, ys)]"
proof -
  assume "ys \<noteq> []"
  then have "remdups (map (\<lambda>y. k) ys) = [k]"
  proof (induction ys)
    case Nil
    then show ?case by simp
  next
    case (Cons y ys)
    then show ?case by (cases ys) auto
  qed
  then show ?thesis by (simp add: collect_by_def comp_def)
qed

lemma next_in_at:
  "distinct (pre @ v # cs) \<Longrightarrow> next_in (pre @ v # cs) v = take 1 cs"
proof (induction pre)
  case Nil
  then show ?case by (cases cs) simp_all
next
  case (Cons p pre)
  then have "next_in (pre @ v # cs) v = take 1 cs" by simp
  moreover have "p \<noteq> v" using Cons.prems by auto
  moreover obtain y zs where "pre @ v # cs = y # zs" by (cases pre) auto
  ultimately show ?case by simp
qed

lemma new_chain:
  "distinct (pre @ v # cs) \<Longrightarrow>
   (\<forall>u \<in> set (v # cs). succs [FIRST_MESSAGE, IS_NEXT] rs u = next_in (pre @ v # cs) u \<and>
                         succs [IS_NEXT] rs u = next_in (pre @ v # cs) u) \<Longrightarrow>
   chain_from rs IS_NEXT v cs"
proof (induction cs arbitrary: pre v)
  case Nil
  then show ?case using next_in_at[of pre v "[]"] by simp
next
  case (Cons c cs)
  have n: "next_in (pre @ v # c # cs) v = [c]"
    using next_in_at[OF Cons.prems(1)] by simp
  have "chain_from rs IS_NEXT c cs"
    using Cons.IH[of "pre @ [v]" c] Cons.prems by simp
  then show ?case using Cons.prems(2) n by simp
qed

lemma extend_chain:
  "chain_from rs t v bs \<Longrightarrow> bs \<noteq> [] \<Longrightarrow>
   (\<forall>u \<in> set (v # butlast bs). \<forall>ts. succs ts rs' u = succs ts rs u) \<Longrightarrow>
   chain_from rs' IS_NEXT (last bs) cs \<Longrightarrow>
   chain_from rs' t v (bs @ cs)"
proof (induction bs arbitrary: v t)
  case Nil
  then show ?case by simp
next
  case (Cons b bs)
  show ?case
  proof (cases "bs = []")
    case True
    with Cons.prems show ?thesis by simp
  next
    case False
    have "chain_from rs' IS_NEXT b (bs @ cs)"
      using Cons.IH[of IS_NEXT b] Cons.prems False by simp
    with Cons.prems False show ?thesis by simp
  qed
qed

lemma chain_tail:
  "chain_from rs t v bs \<Longrightarrow> bs \<noteq> [] \<Longrightarrow>
   filter (\<lambda>m. succs [IS_NEXT] rs m = []) bs = [last bs] \<and>
   succs [FIRST_MESSAGE, IS_NEXT] rs (last bs) = []"
proof (induction bs arbitrary: v t)
  case Nil
  then show ?case by simp
next
  case (Cons b bs)
  show ?case
  proof (cases bs)
    case Nil
    with Cons.prems show ?thesis by (simp add: succs_next_empty)
  next
    case (Cons b' bs')
    have "chain_from rs IS_NEXT b bs" using Cons.prems by simp
    then have "succs [IS_NEXT] rs b \<noteq> []" using Cons by simp
    moreover have "filter (\<lambda>m. succs [IS_NEXT] rs m = []) bs = [last bs] \<and>
        succs [FIRST_MESSAGE, IS_NEXT] rs (last bs) = []"
      using Cons.IH[of IS_NEXT b] Cons.prems Cons by simp
    ultimately show ?thesis using Cons by simp
  qed
qed

lemma has_next_succs: "has_next g m = (succs [IS_NEXT] (rels g) m \<noteq> [])"
  by (auto simp add: has_next_def succs_def out_rels_def filter_empty_conv)

lemma holds_chain_length: "holds_chain g org_id user_id interaction_id i bs ps \<Longrightarrow> length ps = length bs"
  unfolding holds_chain_def by (metis length_map)

lemma holds_chain_last:
  assumes h: "holds_chain g org_id user_id interaction_id i bs ps" and ne: "bs \<noteq> []"
  shows "block_props g (last bs) = Some (last ps) \<and> msg_position (last ps) = int (length bs) - 1"
proof -
  have l: "length ps = length bs" by (rule holds_chain_length[OF h])
  with ne have pne: "ps \<noteq> []" by auto
  from h have p: "map (block_props g) bs = map Some ps"
    and n: "map msg_position ps = map int [0 ..< length ps]" by (simp_all add: holds_chain_def)
  have "block_props g (last bs) = last (map (block_props g) bs)" using ne by (simp add: last_map)
  also have "\<dots> = Some (last ps)" unfolding p using pne by (simp add: last_map)
  finally have 1: "block_props g (last bs) = Some (last ps)" .
  have "msg_position (last ps) = last (map msg_position ps)" using pne by (simp add: last_map)
  also have "\<dots> = last (map int [0 ..< length ps])" by (simp only: n)
  also have "\<dots> = int (length bs) - 1"
  proof -
    obtain k where k: "length ps = Suc k" using pne by (cases ps) auto
    then show ?thesis using l by (simp add: last_map)
  qed
  finally show ?thesis using 1 by simp
qed

lemma zip_const_left: "length xs = length ys \<Longrightarrow> zip (map (\<lambda>x. k) xs) ys = map (Pair k) ys"
  by (induction xs ys rule: list_induct2) simp_all

lemma append_messages_on_chain:
  assumes h: "holds_chain g org_id user_id interaction_id i bs ps" and ne: "bs \<noteq> []"
      and more: "length bs < length messages"
  shows "append_messages_to_interaction org_id user_id interaction_id messages g =
         create_rels
           (map (\<lambda>(a, b). (a, IS_NEXT, b))
                (zip (last bs # [fresh g ..< fresh g + (length messages - length bs)])
                     [fresh g ..< fresh g + (length messages - length bs)]))
           (Graph (nodes g @ zip [fresh g ..< fresh g + (length messages - length bs)]
                               (map (\<lambda>j. message_block messages (int j))
                                    [length bs ..< length messages]))
                  (rels g) (fresh g + (length messages - length bs)))"
proof -
  let ?m = "last bs"
  let ?c = "length messages - length bs"
  let ?msgs = "[fresh g ..< fresh g + ?c]"
  let ?idxs = "[length bs ..< length messages]"
  from h have c: "chain_from (rels g) FIRST_MESSAGE i bs" by (simp add: holds_chain_def)
  have tails: "filter (\<lambda>m. \<not> has_next g m) (map snd (match_chain g org_id user_id interaction_id)) = [?m]"
    using chain_tail[OF c ne] by (simp add: holds_chain_match_chain[OF h] comp_def has_next_succs)
  have up: "[int (length bs) - 1 + 1 .. int (length messages) - 1] = map int ?idxs"
    using upto_as_upt[of "length bs" "length messages"] by simp
  have rows: "concat (map (\<lambda>m. case block_props g m of
                                      None \<Rightarrow> []
                                    | Some p \<Rightarrow> map (Pair m)
                                          [msg_position p + 1 .. int (length messages) - 1])
                             [?m]) = map (Pair ?m) (map int ?idxs)"
    using holds_chain_last[OF h ne] up by simp
  have newnodes: "map (\<lambda>(m, idx). message_block messages idx) (map (Pair ?m) (map int ?idxs))
                = map (\<lambda>j. message_block messages (int j)) ?idxs"
    by (simp add: comp_def)
  have len: "length (map (\<lambda>j. message_block messages (int j)) ?idxs) = ?c" by simp
  have z: "zip (map fst (map (Pair ?m) (map int ?idxs))) ?msgs = map (Pair ?m) ?msgs"
    by (simp add: comp_def zip_const_left)
  have "?msgs \<noteq> []" using more by simp
  then have groups: "collect_by (map (Pair ?m) ?msgs) = [(?m, ?msgs)]"
    by (rule collect_by_one_key)
  show ?thesis
    unfolding append_messages_to_interaction_def Let_def tails rows newnodes create_nodes_eq len
    by (simp only: prod.case z groups list.map concat.simps append_Nil2 chain_rels_zip list.sel)
qed

subsection \<open>Fresh identifiers\<close>

lemma wf_graph_no_succs: "wf_graph g \<Longrightarrow> fresh g \<le> u \<Longrightarrow> succs ts (rels g) u = []"
  by (auto simp add: wf_graph_def succs_def out_rels_def filter_empty_conv)

lemma wf_graph_no_node: "wf_graph g \<Longrightarrow> fresh g \<le> u \<Longrightarrow> map_of (nodes g) u = None"
  by (force simp add: wf_graph_def map_of_eq_None_iff)

lemma block_props_in_nodes:
  "block_props g b = Some p \<Longrightarrow> map_of (nodes g) b = Some (MessageBlock p)"
  by (auto simp add: block_props_def node_of_def split: option.splits node.splits)

lemma wf_graph_block_below:
  "wf_graph g \<Longrightarrow> block_props g b = Some p \<Longrightarrow> b < fresh g"
  by (auto simp add: wf_graph_def dest!: block_props_in_nodes map_of_SomeD)

lemma holds_chain_below:
  assumes h: "holds_chain g org_id user_id interaction_id i bs ps" and w: "wf_graph g"
  shows "\<forall>u \<in> set (i # bs). u < fresh g"
proof -
  from h have "i \<in> set (match_interaction g org_id user_id interaction_id)"
    by (simp add: holds_chain_def)
  then have "i \<in> fst ` set (nodes g)" by (auto simp add: match_interaction_def)
  then have 1: "i < fresh g" using w by (auto simp add: wf_graph_def)
  from h have p: "map (block_props g) bs = map Some ps" by (simp add: holds_chain_def)
  have "\<forall>b \<in> set bs. b < fresh g"
  proof
    fix b assume "b \<in> set bs"
    then obtain j where j: "j < length bs" "bs ! j = b" by (auto simp add: in_set_conv_nth)
    then have "map (block_props g) bs ! j = map Some ps ! j" by (simp only: p)
    moreover have "length ps = length bs" by (rule holds_chain_length[OF h])
    ultimately have "block_props g b = Some (ps ! j)" using j by simp
    then show "b < fresh g" by (rule wf_graph_block_below[OF w])
  qed
  with 1 show ?thesis by simp
qed

lemma wf_graph_create_rels:
  "wf_graph g \<Longrightarrow> (\<forall>x \<in> set xs. fst x < fresh g \<and> snd (snd x) < fresh g) \<Longrightarrow>
   wf_graph (create_rels xs g)"
proof (induction xs g rule: create_rels.induct)
  case (1 g)
  then show ?case by simp
next
  case (2 a t b xs g)
  have "wf_graph (create_rel a t b g)"
    using "2.prems" by (auto simp add: wf_graph_def create_rel_def less_Suc_eq)
  moreover have "\<forall>x \<in> set xs. fst x < fresh (create_rel a t b g) \<and>
                              snd (snd x) < fresh (create_rel a t b g)"
    using "2.prems" by (auto simp add: create_rel_def less_Suc_eq)
  ultimately show ?case using "2.IH" by simp
qed

lemma no_interaction_among_blocks:
  "map fst (filter (\<lambda>p. is_interaction org_id user_id interaction_id (snd p))
                   (zip ks (map (\<lambda>j. message_block messages (int j)) js))) = []"
proof -
  have "\<forall>p \<in> set (zip ks (map (\<lambda>j. message_block messages (int j)) js)).
          \<not> is_interaction org_id user_id interaction_id (snd p)"
    by (auto simp add: message_block_def dest!: set_zip_rightD)
  then show ?thesis by (simp add: filter_empty_conv)
qed

lemma message_block_in_range:
  "j < length messages \<Longrightarrow>
   message_block messages (int j) =
   MessageBlock (MessageProps (int j) (Some (role (messages ! j))) (Some (content (messages ! j))))"
  by (simp add: message_block_def cy_nth_def Let_def)

lemma drop_stored_as:
  "drop n (stored_as ms) =
   map (\<lambda>j. MessageProps (int j) (Some (role (ms ! j))) (Some (content (ms ! j))))
       [n ..< length ms]"
  by (simp add: stored_as_def drop_map)

lemma append_messages_keeps_chain:
  assumes h: "holds_chain g org_id user_id interaction_id i bs ps" and w: "wf_graph g"
      and ne: "bs \<noteq> []" and more: "length bs < length messages"
  shows "holds_chain (append_messages_to_interaction org_id user_id interaction_id messages g)
           org_id user_id interaction_id i
           (bs @ [fresh g ..< fresh g + (length messages - length bs)])
           (ps @ drop (length bs) (stored_as messages))"
proof -
  let ?f = "fresh g"
  let ?n = "length bs"
  let ?L = "length messages"
  let ?m = "last bs"
  let ?msgs = "[?f ..< ?f + (?L - ?n)]"
  let ?new = "map (\<lambda>j. message_block messages (int j)) [?n ..< ?L]"
  let ?G1 = "Graph (nodes g @ zip ?msgs ?new) (rels g) (?f + (?L - ?n))"
  let ?g2 = "create_rels (map (\<lambda>(a, b). (a, IS_NEXT, b)) (zip (?m # ?msgs) ?msgs)) ?G1"
  have eq: "append_messages_to_interaction org_id user_id interaction_id messages g = ?g2"
    by (rule append_messages_on_chain[OF h ne more])
  from h have mi: "match_interaction g org_id user_id interaction_id = [i]"
    and d: "distinct (i # bs)" and c: "chain_from (rels g) FIRST_MESSAGE i bs"
    and p: "map (block_props g) bs = map Some ps"
    and n: "map msg_position ps = map int [0 ..< length ps]"
    by (simp_all add: holds_chain_def)
  have lp: "length ps = ?n" by (rule holds_chain_length[OF h])
  have below: "\<forall>u \<in> set (i # bs). u < ?f" by (rule holds_chain_below[OF h w])
  have mbelow: "?m < ?f" using below ne by simp
  have dm: "distinct (?m # ?msgs)" using mbelow by auto
  have nodes2: "nodes ?g2 = nodes g @ zip ?msgs ?new" by simp
  have succs2: "\<And>ts u. succs ts (rels ?g2) u =
                  succs ts (rels g) u @ (if IS_NEXT \<in> set ts then next_in (?m # ?msgs) u else [])"
    using succs_create_chain[OF dm, of _ ?G1] by simp
  \<comment> \<open>the interaction\<close>
  have 1: "match_interaction ?g2 org_id user_id interaction_id = [i]"
    using mi by (simp add: match_interaction_def no_interaction_among_blocks)
  \<comment> \<open>the nodes of the chain\<close>
  have 2: "distinct (i # bs @ ?msgs)" using d below by auto
  \<comment> \<open>the relationships of the chain\<close>
  have old: "\<forall>u \<in> set (i # butlast bs). \<forall>ts. succs ts (rels ?g2) u = succs ts (rels g) u"
  proof (intro ballI allI)
    fix u ts assume u: "u \<in> set (i # butlast bs)"
    have "u \<in> set (i # bs)" using u by (auto dest: in_set_butlastD)
    then have "u < ?f" using below by blast
    moreover have "u \<noteq> ?m"
    proof
      assume "u = ?m"
      moreover have "?m \<in> set bs" using ne by simp
      moreover have "?m \<notin> set (butlast bs)"
        using d ne by (metis append_butlast_last_id distinct.simps(2) distinct_append
              disjoint_iff list.set_intros(1))
      ultimately show False using u d by auto
    qed
    ultimately have "u \<notin> set (?m # ?msgs)" by auto
    then have "next_in (?m # ?msgs) u = []" by (rule next_in_notin)
    then show "succs ts (rels ?g2) u = succs ts (rels g) u" by (simp add: succs2)
  qed
  have tail: "succs [FIRST_MESSAGE, IS_NEXT] (rels g) ?m = []"
    using chain_tail[OF c ne] by simp
  have fresh_part: "\<forall>u \<in> set (?m # ?msgs). succs [FIRST_MESSAGE, IS_NEXT] (rels g) u = [] \<and>
                                             succs [IS_NEXT] (rels g) u = []"
    using tail succs_next_empty[OF tail] wf_graph_no_succs[OF w] by auto
  have "chain_from (rels ?g2) IS_NEXT ?m ?msgs"
  proof (rule new_chain[where pre = "[]"])
    show "distinct ([] @ ?m # ?msgs)" using dm by simp
    show "\<forall>u \<in> set (?m # ?msgs).
            succs [FIRST_MESSAGE, IS_NEXT] (rels ?g2) u = next_in ([] @ ?m # ?msgs) u \<and>
            succs [IS_NEXT] (rels ?g2) u = next_in ([] @ ?m # ?msgs) u"
      using fresh_part by (simp add: succs2)
  qed
  then have 3: "chain_from (rels ?g2) FIRST_MESSAGE i (bs @ ?msgs)"
    by (rule extend_chain[OF c ne old])
  \<comment> \<open>the properties of the blocks\<close>
  have oldp: "map (block_props ?g2) bs = map Some ps"
  proof -
    have "\<forall>b \<in> set bs. block_props ?g2 b = block_props g b"
    proof
      fix b assume "b \<in> set bs"
      then obtain j where j: "j < length bs" "bs ! j = b" by (auto simp add: in_set_conv_nth)
      then have "map (block_props g) bs ! j = map Some ps ! j" by (simp only: p)
      then have "block_props g b = Some (ps ! j)" using j lp by simp
      then have "map_of (nodes g) b = Some (MessageBlock (ps ! j))"
        by (rule block_props_in_nodes)
      then show "block_props ?g2 b = block_props g b"
        by (simp add: block_props_def node_of_def)
    qed
    then have "map (block_props ?g2) bs = map (block_props g) bs" by simp
    then show ?thesis using p by simp
  qed
  have newp: "map (block_props ?g2) ?msgs = map Some (drop ?n (stored_as messages))"
  proof (rule nth_equalityI)
    show "length (map (block_props ?g2) ?msgs) = length (map Some (drop ?n (stored_as messages)))"
      by (simp add: stored_as_def)
  next
    fix j assume "j < length (map (block_props ?g2) ?msgs)"
    then have j: "j < ?L - ?n" by simp
    have "map_of (nodes g) (?f + j) = None" by (rule wf_graph_no_node[OF w]) simp
    moreover have "map_of (zip ?msgs ?new) (?msgs ! j) = Some (?new ! j)"
      by (rule map_of_zip_nth) (use j in simp_all)
    ultimately have "map_of (nodes ?g2) (?f + j) = Some (?new ! j)"
      using j by (simp add: map_add_def)
    moreover have "?new ! j = MessageBlock (MessageProps (int (?n + j))
                      (Some (role (messages ! (?n + j)))) (Some (content (messages ! (?n + j)))))"
      using j message_block_in_range[of "?n + j" messages] by simp
    ultimately have "block_props ?g2 (?f + j) = Some (MessageProps (int (?n + j))
                      (Some (role (messages ! (?n + j)))) (Some (content (messages ! (?n + j)))))"
      by (simp add: block_props_def node_of_def)
    then show "map (block_props ?g2) ?msgs ! j = map Some (drop ?n (stored_as messages)) ! j"
      using j by (simp add: drop_stored_as)
  qed
  have 4: "map (block_props ?g2) (bs @ ?msgs) = map Some (ps @ drop ?n (stored_as messages))"
    using oldp newp by simp
  \<comment> \<open>the positions\<close>
  have "map msg_position (drop ?n (stored_as messages)) = map int [?n ..< ?L]"
    by (simp add: drop_stored_as comp_def)
  moreover have "[0 ..< ?L] = [0 ..< ?n] @ [?n ..< ?L]"
    using more upt_add_eq_append[of 0 ?n "?L - ?n"] by simp
  moreover have "length (ps @ drop ?n (stored_as messages)) = ?L"
    using more lp by (simp add: stored_as_def)
  ultimately have 5: "map msg_position (ps @ drop ?n (stored_as messages)) =
                      map int [0 ..< length (ps @ drop ?n (stored_as messages))]"
    using n lp by simp
  show ?thesis unfolding eq holds_chain_def using 1 2 3 4 5 by blast
qed

section \<open>Truncating and replacing\<close>

lemma append_messages_old_nodes:
  assumes h: "holds_chain g org_id user_id interaction_id i bs ps"
      and ne: "bs \<noteq> []" and more: "length bs < length messages" and u: "u < fresh g"
  shows "node_of (append_messages_to_interaction org_id user_id interaction_id messages g) u =
         node_of g u"
proof -
  have "u \<notin> set [fresh g ..< fresh g + (length messages - length bs)]" using u by simp
  then have z: "map_of (zip [fresh g ..< fresh g + (length messages - length bs)]
                         (map (\<lambda>j. message_block messages (int j))
                              [length bs ..< length messages])) u = None"
    by (auto simp add: map_of_eq_None_iff dest: set_zip_leftD)
  show ?thesis
    unfolding append_messages_on_chain[OF h ne more]
    by (simp add: node_of_def map_add_def z split: option.splits)
qed

lemma first_mismatch:
  assumes t: "compute_truncate_from existing_messages incoming = Inr t" and pos: "0 < t"
  shows "nat t < length existing_messages \<and> nat t < length incoming \<and>
         \<not> agrees existing_messages incoming (nat t) \<and>
         (\<forall>j < nat t. agrees existing_messages incoming j)"
proof -
  let ?t0 = "if existing_messages \<noteq> [] then - 1 else (0::int)"
  have "compare_messages existing_messages incoming 0 ?t0 = Inr t"
    using t by (simp add: compute_truncate_from_def)
  from compare_messages_result[OF this] pos
  obtain k where "t = int k" "k < length existing_messages" "k < length incoming"
      "\<not> agrees existing_messages incoming k" "\<forall>j. 0 \<le> j \<and> j < k \<longrightarrow> agrees existing_messages incoming j"
    by (auto split: if_splits)
  then show ?thesis by simp
qed

lemma agreeing_prefix:
  assumes n: "map msg_position ps = map int [0 ..< length ps]"
      and k: "k \<le> length ps" "k \<le> length ms"
      and a: "\<forall>j < k. agrees ps ms j"
  shows "take k ps = take k (stored_as ms)"
proof (rule nth_equalityI)
  show "length (take k ps) = length (take k (stored_as ms))"
    using k by (simp add: stored_as_def)
next
  fix j assume "j < length (take k ps)"
  then have j: "j < k" "j < length ps" "j < length ms" using k by simp_all
  have "map msg_position ps ! j = map int [0 ..< length ps] ! j" by (simp only: n)
  then have "msg_position (ps ! j) = int j" using j by simp
  moreover have "role_prop (ps ! j) = Some (role (ms ! j))"
      "content_prop (ps ! j) = Some (content (ms ! j))"
    using a j by (simp_all add: agrees_def)
  ultimately have "ps ! j = MessageProps (int j) (Some (role (ms ! j))) (Some (content (ms ! j)))"
    by (cases "ps ! j") simp
  then show "take k ps ! j = take k (stored_as ms) ! j"
    using j by (simp add: stored_as_def)
qed

lemma update_messages_truncate_and_replace:
  assumes h: "holds_chain g org_id user_id interaction_id i bs existing_messages"
      and w: "wf_graph g"
      and t: "compute_truncate_from existing_messages incoming = Inr truncate_from"
      and pos: "0 < truncate_from"
  shows "get_interaction_messages
           (update_messages org_id user_id interaction_id incoming truncate_from g)
           org_id user_id interaction_id = stored_as incoming \<and>
         holds_chain (update_messages org_id user_id interaction_id incoming truncate_from g)
           org_id user_id interaction_id i
           (take (nat truncate_from) bs @
            [fresh g ..< fresh g + (length incoming - nat truncate_from)])
           (stored_as incoming) \<and>
         (\<forall>b \<in> set (take (nat truncate_from) bs).
            node_of (update_messages org_id user_id interaction_id incoming truncate_from g) b =
            node_of g b) \<and>
         (\<forall>b \<in> set (drop (nat truncate_from) bs).
            node_of (update_messages org_id user_id interaction_id incoming truncate_from g) b =
            None)"
proof -
  let ?k = "nat truncate_from"
  let ?g1 = "detach_delete (drop ?k bs) g"
  let ?g2 = "append_messages_to_interaction org_id user_id interaction_id incoming ?g1"
  have lp: "length existing_messages = length bs" by (rule holds_chain_length[OF h])
  from first_mismatch[OF t pos] lp
  have k: "?k < length bs" "?k < length incoming"
    and same: "\<forall>j < ?k. agrees existing_messages incoming j" by simp_all
  have kpos: "0 < ?k" using pos by simp
  have tr: "truncate_messages org_id user_id interaction_id ?k g = ?g1"
    using truncate_messages_chain[OF h kpos] k by simp
  have upd: "update_messages org_id user_id interaction_id incoming truncate_from g = ?g2"
    using pos by (simp add: update_messages_def tr)
  have h1: "holds_chain ?g1 org_id user_id interaction_id i (take ?k bs)
              (take ?k existing_messages)"
    by (rule holds_chain_truncated[OF h])
  have w1: "wf_graph ?g1" by (rule wf_graph_detach_delete[OF w])
  have f1: "fresh ?g1 = fresh g" by (simp add: detach_delete_def)
  have ne1: "take ?k bs \<noteq> []" using k kpos by (cases bs) auto
  have more1: "length (take ?k bs) < length incoming" using k by simp
  have lk: "length (take ?k bs) = ?k" using k by simp
  from h have n: "map msg_position existing_messages = map int [0 ..< length existing_messages]"
    by (simp add: holds_chain_def)
  have pre: "take ?k existing_messages = take ?k (stored_as incoming)"
    using agreeing_prefix[OF n _ _ same] k lp by simp
  have "holds_chain ?g2 org_id user_id interaction_id i
          (take ?k bs @ [fresh ?g1 ..< fresh ?g1 + (length incoming - length (take ?k bs))])
          (take ?k existing_messages @ drop (length (take ?k bs)) (stored_as incoming))"
    by (rule append_messages_keeps_chain[OF h1 w1 ne1 more1])
  then have h2: "holds_chain ?g2 org_id user_id interaction_id i
          (take ?k bs @ [fresh g ..< fresh g + (length incoming - ?k)]) (stored_as incoming)"
    unfolding f1 lk pre by simp
  have below: "\<forall>u \<in> set (i # bs). u < fresh g" by (rule holds_chain_below[OF h w])
  have d: "distinct (i # bs)" using h by (simp add: holds_chain_def)
  have old: "\<And>u. u < fresh g \<Longrightarrow> node_of ?g2 u = node_of ?g1 u"
    using append_messages_old_nodes[OF h1 ne1 more1] f1 by simp
  have kept: "\<forall>b \<in> set (take ?k bs). node_of ?g2 b = node_of g b"
  proof
    fix b assume b: "b \<in> set (take ?k bs)"
    then have "b \<in> set bs" by (rule in_set_takeD)
    then have "b < fresh g" using below by simp
    moreover have "b \<notin> set (drop ?k bs)"
      using b d by (metis append_take_drop_id distinct.simps(2) distinct_append disjoint_iff)
    ultimately show "node_of ?g2 b = node_of g b" by (simp add: old node_of_detach_delete)
  qed
  have gone: "\<forall>b \<in> set (drop ?k bs). node_of ?g2 b = None"
  proof
    fix b assume b: "b \<in> set (drop ?k bs)"
    then have "b \<in> set bs" by (rule in_set_dropD)
    then have "b < fresh g" using below by simp
    then show "node_of ?g2 b = None" using b by (simp add: old node_of_detach_delete)
  qed
  show ?thesis unfolding upd using holds_chain_read[OF h2] h2 kept gone by blast
qed


section \<open>The rest of the update transaction\<close>

subsection \<open>Steps that leave the chains alone\<close>

lemma out_rels_chain_rels_of:
  "set ts \<subseteq> set [FIRST_MESSAGE, IS_NEXT] \<Longrightarrow>
   out_rels ts (filter (\<lambda>r. rtype r \<in> set [FIRST_MESSAGE, IS_NEXT]) rs) v = out_rels ts rs v"
  unfolding out_rels_def filter_filter by (rule filter_cong) auto

lemma var_expand_chain_rels_of:
  "set ts \<subseteq> set [FIRST_MESSAGE, IS_NEXT] \<Longrightarrow>
   var_expand ts (filter (\<lambda>r. rtype r \<in> set [FIRST_MESSAGE, IS_NEXT]) rs) v =
   var_expand ts rs v"
proof (induction ts rs v rule: var_expand.induct)
  case (1 ts rs v)
  let ?P = "\<lambda>r. rtype r \<in> set [FIRST_MESSAGE, IS_NEXT]"
  have o: "out_rels ts (filter ?P rs) v = out_rels ts rs v"
    by (rule out_rels_chain_rels_of[OF "1.prems"])
  have step: "\<And>r. r \<in> set (out_rels ts rs v) \<Longrightarrow>
                var_expand ts (remove1 r (filter ?P rs)) (dst r) =
                var_expand ts (remove1 r rs) (dst r)"
  proof -
    fix r assume r: "r \<in> set (out_rels ts rs v)"
    then have "?P r" using "1.prems" by (auto simp add: out_rels_def)
    then have "remove1 r (filter ?P rs) = filter ?P (remove1 r rs)"
      by (simp add: filter_remove1)
    then show "var_expand ts (remove1 r (filter ?P rs)) (dst r) =
               var_expand ts (remove1 r rs) (dst r)"
      using "1.IH"[OF r "1.prems"] by simp
  qed
  have "var_expand ts (filter ?P rs) v =
        concat (map (\<lambda>r. dst r # var_expand ts (remove1 r (filter ?P rs)) (dst r))
                    (out_rels ts rs v))"
    by (subst var_expand.simps) (simp only: o)
  also have "\<dots> = concat (map (\<lambda>r. dst r # var_expand ts (remove1 r rs) (dst r))
                             (out_rels ts rs v))"
    using step by (intro arg_cong[where f = concat] map_cong) simp_all
  also have "\<dots> = var_expand ts rs v" by (subst (2) var_expand.simps) simp
  finally show ?case .
qed

lemma is_message_block_props: "is_message_block g m = (block_props g m \<noteq> None)"
  by (auto simp add: is_message_block_def block_props_def split: option.splits node.splits)

lemma same_messages_read:
  assumes "same_messages g g'"
  shows "get_interaction_messages g' org_id user_id interaction_id =
         get_interaction_messages g org_id user_id interaction_id"
proof -
  from assms have mi: "match_interaction g' org_id user_id interaction_id =
      match_interaction g org_id user_id interaction_id"
    and bp: "block_props g' = block_props g"
    and cr: "chain_rels_of g' = chain_rels_of g"
    by (auto simp add: same_messages_def)
  have mb: "is_message_block g' = is_message_block g"
    by (simp add: fun_eq_iff is_message_block_props bp)
  have "\<And>i. var_expand [FIRST_MESSAGE, IS_NEXT] (rels g') i =
             var_expand [FIRST_MESSAGE, IS_NEXT] (rels g) i"
    using var_expand_chain_rels_of[of "[FIRST_MESSAGE, IS_NEXT]" "rels g'"]
          var_expand_chain_rels_of[of "[FIRST_MESSAGE, IS_NEXT]" "rels g"] cr
    by (simp add: chain_rels_of_def)
  then show ?thesis
    by (simp add: get_interaction_messages_def match_chain_def mi bp mb)
qed

lemma succs_chain_rels_of:
  "set ts \<subseteq> set [FIRST_MESSAGE, IS_NEXT] \<Longrightarrow>
   succs ts (chain_rels_of g) v = succs ts (rels g) v"
  by (simp only: succs_def chain_rels_of_def out_rels_chain_rels_of)

lemma chain_from_chain_rels_of:
  "t \<in> set [FIRST_MESSAGE, IS_NEXT] \<Longrightarrow>
   chain_from (chain_rels_of g) t v bs = chain_from (rels g) t v bs"
proof (induction bs arbitrary: t v)
  case Nil
  then show ?case by (simp add: succs_chain_rels_of)
next
  case (Cons b bs)
  have "set [t] \<subseteq> set [FIRST_MESSAGE, IS_NEXT]" using Cons.prems by auto
  then have "succs [t] (chain_rels_of g) v = succs [t] (rels g) v"
    by (rule succs_chain_rels_of)
  moreover have "chain_from (chain_rels_of g) IS_NEXT b bs = chain_from (rels g) IS_NEXT b bs"
    by (rule Cons.IH) simp
  ultimately show ?case by (simp add: succs_chain_rels_of)
qed

lemma same_messages_holds_chain:
  assumes "same_messages g g'"
  shows "holds_chain g' org_id user_id interaction_id i bs ps =
         holds_chain g org_id user_id interaction_id i bs ps"
proof -
  from assms have mi: "match_interaction g' org_id user_id interaction_id =
      match_interaction g org_id user_id interaction_id"
    and bp: "block_props g' = block_props g"
    and cr: "chain_rels_of g' = chain_rels_of g"
    by (auto simp add: same_messages_def)
  have "chain_from (rels g') FIRST_MESSAGE i bs = chain_from (rels g) FIRST_MESSAGE i bs"
    using chain_from_chain_rels_of[of FIRST_MESSAGE g' i bs]
          chain_from_chain_rels_of[of FIRST_MESSAGE g i bs] cr by simp
  then show ?thesis by (simp add: holds_chain_def mi bp)
qed

lemma same_messages_refl: "same_messages g g"
  by (simp add: same_messages_def)

lemma same_messages_trans:
  "same_messages g g' \<Longrightarrow> same_messages g' g'' \<Longrightarrow> same_messages g g''"
  by (simp add: same_messages_def)

lemma is_plain_not_interaction:
  "is_plain n \<Longrightarrow> \<not> is_interaction org_id user_id interaction_id n"
  by (cases n) simp_all

lemma is_plain_not_block: "is_plain n \<Longrightarrow> (case n of MessageBlock p \<Rightarrow> Some p | _ \<Rightarrow> None) = None"
  by (cases n) simp_all

lemma same_messages_new_nodes:
  assumes n: "nodes g' = nodes g @ extra" and p: "\<forall>x \<in> set extra. is_plain (snd x)"
      and r: "chain_rels_of g' = chain_rels_of g"
  shows "same_messages g g'"
proof -
  have "\<And>org_id user_id interaction_id.
          filter (\<lambda>x. is_interaction org_id user_id interaction_id (snd x)) extra = []"
    using p by (auto simp add: filter_empty_conv is_plain_not_interaction)
  then have 1: "\<And>org_id user_id interaction_id.
          match_interaction g' org_id user_id interaction_id =
          match_interaction g org_id user_id interaction_id"
    by (simp add: match_interaction_def n)
  have 2: "\<And>m. block_props g' m = block_props g m"
  proof -
    fix m
    show "block_props g' m = block_props g m"
    proof (cases "map_of (nodes g) m")
      case (Some x)
      then show ?thesis by (simp add: block_props_def node_of_def n)
    next
      case None
      show ?thesis
      proof (cases "map_of extra m")
        case None
        with \<open>map_of (nodes g) m = None\<close> show ?thesis
          by (simp add: block_props_def node_of_def n map_add_def)
      next
        case (Some x)
        then have "(m, x) \<in> set extra" by (rule map_of_SomeD)
        then have "is_plain x" using p by auto
        then show ?thesis using Some \<open>map_of (nodes g) m = None\<close>
          by (simp add: block_props_def node_of_def n map_add_def is_plain_not_block)
      qed
    qed
  qed
  show ?thesis unfolding same_messages_def using 1 2 r by simp
qed

lemma same_messages_create_nodes:
  assumes "create_nodes ns g = (ids, g')" and "\<forall>n \<in> set ns. is_plain n"
  shows "same_messages g g'"
proof -
  from assms(1) have g': "g' = Graph (nodes g @ zip [fresh g ..< fresh g + length ns] ns) (rels g)
                                    (fresh g + length ns)"
    by (auto simp add: create_nodes_eq)
  show ?thesis
  proof (rule same_messages_new_nodes)
    show "nodes g' = nodes g @ zip [fresh g ..< fresh g + length ns] ns" by (simp add: g')
    show "\<forall>x \<in> set (zip [fresh g ..< fresh g + length ns] ns). is_plain (snd x)"
      using assms(2) by (auto dest: set_zip_rightD)
    show "chain_rels_of g' = chain_rels_of g" by (simp add: g' chain_rels_of_def)
  qed
qed

lemma same_messages_create_rel:
  "t \<notin> set [FIRST_MESSAGE, IS_NEXT] \<Longrightarrow> same_messages g (create_rel a t b g)"
  by (simp add: same_messages_def create_rel_def chain_rels_of_def match_interaction_def
        block_props_def node_of_def)

lemma same_messages_create_rels:
  "\<forall>x \<in> set xs. fst (snd x) \<notin> set [FIRST_MESSAGE, IS_NEXT] \<Longrightarrow>
   same_messages g (create_rels xs g)"
proof (induction xs g rule: create_rels.induct)
  case (1 g)
  then show ?case by (simp add: same_messages_refl)
next
  case (2 a t b xs g)
  have "same_messages g (create_rel a t b g)"
    using "2.prems" by (intro same_messages_create_rel) simp
  moreover have "same_messages (create_rel a t b g) (create_rels xs (create_rel a t b g))"
    using "2.prems" by (intro "2.IH") simp
  ultimately show ?case by (simp add: same_messages_trans)
qed

lemma same_messages_merge_rels:
  "\<forall>x \<in> set xs. fst (snd x) \<notin> set [FIRST_MESSAGE, IS_NEXT] \<Longrightarrow>
   same_messages g (merge_rels xs g)"
proof (induction xs g rule: merge_rels.induct)
  case (1 g)
  then show ?case by (simp add: same_messages_refl)
next
  case (2 a t b xs g)
  have "same_messages g (merge_rel a t b g)"
    using "2.prems" same_messages_create_rel[of t g a b]
    by (simp add: merge_rel_def same_messages_refl)
  moreover have "same_messages (merge_rel a t b g) (merge_rels xs (merge_rel a t b g))"
    using "2.prems" by (intro "2.IH") simp
  ultimately show ?case by (simp add: same_messages_trans)
qed

lemma same_messages_source_links:
  "create_source_links rows g = Inr g' \<Longrightarrow> same_messages g g'"
proof (induction rows g rule: create_source_links.induct)
  case (1 g)
  then show ?case by (simp add: same_messages_refl)
next
  case (2 mem rows g)
  then show ?case by simp
next
  case (3 message_node mem rows g)
  have "same_messages g (create_rel mem MESSAGE_SOURCE message_node g)"
    by (rule same_messages_create_rel) simp
  moreover have "same_messages (create_rel mem MESSAGE_SOURCE message_node g) g'"
    using "3.prems" by (intro "3.IH") simp
  ultimately show ?case by (rule same_messages_trans)
qed

lemma same_messages_add_memories:
  assumes "add_memories_with_their_source_links org_id user_id agent_id interaction_id mi
             new_memory_ids new_contrary_memory_ids g = Inr g'"
  shows "same_messages g g'"
proof -
  let ?tuples = "zip (new_memory_ids @ new_contrary_memory_ids) (all_memories mi)"
  let ?rows = "concat (map (\<lambda>((i, mc), messages).
                                 map (\<lambda>memory_tuple. (messages, i, mc, memory_tuple)) ?tuples)
                 (collect_by
                        (concat (map (\<lambda>(i, m). map (\<lambda>mc. ((i, mc), m))
                             (map snd (match_user_rel g org_id user_id HAS_MEMORIES)))
                          (match_chain g org_id user_id interaction_id)))))"
  let ?nodes = "map (\<lambda>(messages, i, mc, memory_id, text, pos).
                      Memory org_id user_id agent_id interaction_id memory_id text
                             (interaction_date mi)) ?rows"
  obtain mems g1 where c: "create_nodes ?nodes g = (mems, g1)" by (cases "create_nodes ?nodes g")
  let ?rows1 = "zip ?rows mems"
  let ?g2 = "create_rels (map (\<lambda>((messages, i, mc, t), mem). (mem, INTERACTION_SOURCE, i)) ?rows1) g1"
  let ?g3 = "create_rels (map (\<lambda>((messages, i, mc, t), mem). (mc, INCLUDES, mem)) ?rows1) ?g2"
  let ?rows2 = "concat (map (\<lambda>((messages, i, mc, memory_id, text, pos), mem).
                                  map (\<lambda>source_msg_pos. (cy_nth messages source_msg_pos, mem)) pos)
                              ?rows1)"
  have fin: "create_source_links ?rows2 ?g3 = Inr g'"
    using assms c by (simp add: add_memories_with_their_source_links_def Let_def)
  have "\<forall>n \<in> set ?nodes. is_plain n" by auto
  then have 1: "same_messages g g1" by (rule same_messages_create_nodes[OF c])
  have 2: "same_messages g1 ?g2" by (rule same_messages_create_rels) auto
  have 3: "same_messages ?g2 ?g3" by (rule same_messages_create_rels) auto
  have 4: "same_messages ?g3 g'" by (rule same_messages_source_links[OF fin])
  show ?thesis using 1 2 3 4 by (blast intro: same_messages_trans)
qed

lemma same_messages_link_pairs:
  "same_messages g (link_pairs org_id user_id pairs g)"
proof (induction org_id user_id pairs g rule: link_pairs.induct)
  case (1 org_id user_id g)
  then show ?case by (simp add: same_messages_refl)
next
  case (2 org_id user_id contrary_id existing_id pairs g)
  let ?batch = "concat (map (\<lambda>new_contrary_memory.
                          map (\<lambda>old_memory. (old_memory, CONTRARY_UPDATE, new_contrary_memory))
                              (match_memory g org_id user_id existing_id))
                       (match_memory g org_id user_id contrary_id))"
  have "same_messages g (merge_rels ?batch g)" by (rule same_messages_merge_rels) auto
  then show ?case using "2.IH" by (simp add: same_messages_trans)
qed

lemma same_messages_merge_date:
  "merge_date org_id user_id day g = (ds, g') \<Longrightarrow> same_messages g g'"
proof -
  assume a: "merge_date org_id user_id day g = (ds, g')"
  show ?thesis
  proof (cases "map fst (filter (\<lambda>p. is_date org_id user_id day (snd p)) (nodes g)) = []")
    case True
    then have "g' = snd (create_node (Date org_id user_id day) g)"
      using a by (auto simp add: merge_date_def Let_def split: prod.splits)
    then have g': "g' = Graph (nodes g @ [(fresh g, Date org_id user_id day)]) (rels g) (Suc (fresh g))"
      by (simp add: create_node_def)
    show ?thesis
      by (rule same_messages_new_nodes[where extra = "[(fresh g, Date org_id user_id day)]"])
         (simp_all add: g' chain_rels_of_def)
  next
    case False
    then have "g' = g" using a by (auto simp add: merge_date_def Let_def)
    then show ?thesis by (simp add: same_messages_refl)
  qed
qed

lemma same_messages_merge_dates:
  "merge_dates org_id user_id day is g = (rows, g') \<Longrightarrow> same_messages g g'"
proof (induction "is" arbitrary: g rows g')
  case Nil
  then show ?case by (simp add: same_messages_refl)
next
  case (Cons i "is")
  obtain ds g1 where m: "merge_date org_id user_id day g = (ds, g1)"
    by (cases "merge_date org_id user_id day g")
  obtain rows1 g2 where r: "merge_dates org_id user_id day is g1 = (rows1, g2)"
    by (cases "merge_dates org_id user_id day is g1")
  have "g' = g2" using Cons.prems m r by simp
  then show ?case
    using same_messages_merge_date[OF m] Cons.IH[OF r] by (simp add: same_messages_trans)
qed

lemma is_interaction_set_updated:
  "is_interaction org_id user_id interaction_id (set_updated date agent_id n) =
   is_interaction org_id user_id interaction_id n"
  by (cases n) simp_all

lemma block_of_set_updated:
  "(case set_updated date agent_id n of MessageBlock p \<Rightarrow> Some p | _ \<Rightarrow> None) =
   (case n of MessageBlock p \<Rightarrow> Some p | _ \<Rightarrow> None)"
  by (cases n) simp_all

lemma same_messages_set_updated:
  "same_messages g
     (Graph (map (\<lambda>(j, n). if j \<in> S then (j, set_updated date agent_id n) else (j, n)) (nodes g))
            (rels g) (fresh g))"
proof -
  let ?upd = "\<lambda>(j, n). if j \<in> S then (j, set_updated date agent_id n) else (j, n)"
  have 1: "\<And>org_id user_id interaction_id xs.
     map fst (filter (\<lambda>p. is_interaction org_id user_id interaction_id (snd p)) (map ?upd xs)) =
     map fst (filter (\<lambda>p. is_interaction org_id user_id interaction_id (snd p)) xs)"
  proof -
    fix org_id user_id interaction_id and xs :: "(node_id \<times> node) list"
    show "map fst (filter (\<lambda>p. is_interaction org_id user_id interaction_id (snd p)) (map ?upd xs)) =
     map fst (filter (\<lambda>p. is_interaction org_id user_id interaction_id (snd p)) xs)"
      by (induction xs) (auto simp add: is_interaction_set_updated split: if_splits)
  qed
  have 2: "\<And>m xs. (case map_of (map ?upd xs) m of
                      None \<Rightarrow> None | Some n \<Rightarrow> (case n of MessageBlock p \<Rightarrow> Some p | _ \<Rightarrow> None)) =
                   (case map_of xs m of
                      None \<Rightarrow> None | Some n \<Rightarrow> (case n of MessageBlock p \<Rightarrow> Some p | _ \<Rightarrow> None))"
  proof -
    fix m and xs :: "(node_id \<times> node) list"
    show "(case map_of (map ?upd xs) m of
                      None \<Rightarrow> None | Some n \<Rightarrow> (case n of MessageBlock p \<Rightarrow> Some p | _ \<Rightarrow> None)) =
                   (case map_of xs m of
                      None \<Rightarrow> None | Some n \<Rightarrow> (case n of MessageBlock p \<Rightarrow> Some p | _ \<Rightarrow> None))"
      by (induction xs) (auto simp add: block_of_set_updated split: if_splits)
  qed
  have bp: "\<And>g m. block_props g m = (case map_of (nodes g) m of
                      None \<Rightarrow> None | Some n \<Rightarrow> (case n of MessageBlock p \<Rightarrow> Some p | _ \<Rightarrow> None))"
    by (simp add: block_props_def node_of_def split: option.splits node.splits)
  show ?thesis
    unfolding same_messages_def
    by (simp add: match_interaction_def 1 bp 2 chain_rels_of_def)
qed

lemma same_messages_update_interaction_date:
  "same_messages g (update_interaction_date org_id user_id agent_id interaction_id date g)"
proof -
  let ?is = "match_interaction g org_id user_id interaction_id"
  let ?g1 = "Graph (map (\<lambda>(j, n). if j \<in> set ?is then (j, set_updated date agent_id n) else (j, n))
                          (nodes g)) (rels g) (fresh g)"
  obtain rows g2 where m: "merge_dates org_id user_id (cal_date date) ?is ?g1 = (rows, g2)"
    by (cases "merge_dates org_id user_id (cal_date date) ?is ?g1")
  have u: "update_interaction_date org_id user_id agent_id interaction_id date g =
           merge_rels (map (\<lambda>(i, d). (i, HAS_OCCURRENCE_ON, d)) rows) g2"
    using m by (simp add: update_interaction_date_def Let_def)
  have 1: "same_messages g ?g1" by (rule same_messages_set_updated)
  have 2: "same_messages ?g1 g2" by (rule same_messages_merge_dates[OF m])
  have 3: "same_messages g2 (merge_rels (map (\<lambda>(i, d). (i, HAS_OCCURRENCE_ON, d)) rows) g2)"
    by (rule same_messages_merge_rels) auto
  show ?thesis unfolding u using 1 2 3 by (blast intro: same_messages_trans)
qed

lemma update_tx_same_messages:
  assumes "update_tx org_id agent_id user_id interaction_id mi add_fn truncate_from
             new_memory_ids new_contrary_memory_ids g v = (Inr (res, g'), v')"
  shows "same_messages
           (update_messages org_id user_id interaction_id (interaction mi) truncate_from g) g'"
proof -
  let ?g1 = "update_messages org_id user_id interaction_id (interaction mi) truncate_from g"
  let ?mem = "if new_memory_ids \<noteq> [] \<or> new_contrary_memory_ids \<noteq> []
               then add_memories_with_their_source_links org_id user_id agent_id interaction_id mi
                      new_memory_ids new_contrary_memory_ids ?g1
               else Inr ?g1"
  obtain g2 where g2: "?mem = Inr g2"
    using assms by (cases ?mem) (simp_all add: update_tx_def Let_def)
  let ?g3 = "if new_contrary_memory_ids \<noteq> []
             then link_update_contrary_memories_to_existing_memories org_id user_id
                    new_contrary_memory_ids mi g2
             else g2"
  let ?g4 = "update_interaction_date org_id user_id agent_id interaction_id
                        (interaction_date mi) ?g3"
  have g': "g' = ?g4"
    using assms g2
    by (simp add: update_tx_def Let_def split: if_splits prod.splits option.splits)
  have 1: "same_messages ?g1 g2"
    using g2 by (auto simp add: same_messages_refl same_messages_add_memories split: if_splits)
  have 2: "same_messages g2 ?g3"
    by (simp add: same_messages_refl link_update_contrary_memories_to_existing_memories_def
          same_messages_link_pairs)
  have 3: "same_messages ?g3 ?g4" by (rule same_messages_update_interaction_date)
  show ?thesis unfolding g' using 1 2 3 by (blast intro: same_messages_trans)
qed

subsection \<open>The update as a whole\<close>

text \<open>
  C6. The interaction holds the chain \<open>bs\<close> with properties \<open>existing_messages\<close>, the
  comparison with the incoming transcript finds the first mismatch at \<open>truncate_from > 0\<close>,
  and the update goes through. Then the chain reads back as the incoming transcript and
  satisfies the chain invariant again; its first \<open>truncate_from\<close> blocks are the stored
  ones with their properties, the stored blocks from position \<open>truncate_from\<close> on are no
  longer message blocks of the graph, and the blocks of \<open>incoming[truncate_from:]\<close> are new
  nodes at the tail.
\<close>

theorem truncate_and_replace_gives_incoming:
  assumes h: "holds_chain g org_id user_id interaction_id i bs existing_messages"
      and w: "wf_graph g"
      and t: "compute_truncate_from existing_messages (interaction mi) = Inr truncate_from"
      and pos: "0 < truncate_from"
      and ok: "update_interaction_and_memories org_id agent_id user_id interaction_id mi add_fn
                 uuid g v = (Inr res, g', v')"
  shows "get_interaction_messages g' org_id user_id interaction_id = stored_as (interaction mi) \<and>
         holds_chain g' org_id user_id interaction_id i
           (take (nat truncate_from) bs @
            [fresh g ..< fresh g + (length (interaction mi) - nat truncate_from)])
           (stored_as (interaction mi)) \<and>
         (\<forall>b \<in> set (take (nat truncate_from) bs). block_props g' b = block_props g b) \<and>
         (\<forall>b \<in> set (drop (nat truncate_from) bs). block_props g' b = None)"
proof -
  let ?g1 = "update_messages org_id user_id interaction_id (interaction mi) truncate_from g"
  let ?ids = "map uuid [0 ..< length (memories mi)]"
  let ?cids = "map uuid [length (memories mi) ..<
                         length (memories mi) + length (contrary_memories mi)]"
  have ex: "get_interaction_messages g org_id user_id interaction_id = existing_messages"
    by (rule holds_chain_read[OF h])
  have "execute_write (update_tx org_id agent_id user_id interaction_id mi add_fn truncate_from
                         ?ids ?cids) g v = (Inr res, g', v')"
    using ok by (simp add: update_interaction_and_memories_def Let_def ex t)
  then have "update_tx org_id agent_id user_id interaction_id mi add_fn truncate_from
               ?ids ?cids g v = (Inr (res, g'), v')"
    by (auto simp add: execute_write_def split: prod.splits sum.splits)
  then have sm: "same_messages ?g1 g'" by (rule update_tx_same_messages)
  have bp: "\<And>m. block_props g' m = block_props ?g1 m"
    using sm by (simp add: same_messages_def)
  note m = update_messages_truncate_and_replace[OF h w t pos]
  have 1: "get_interaction_messages g' org_id user_id interaction_id = stored_as (interaction mi)"
    using m same_messages_read[OF sm] by simp
  have 2: "holds_chain g' org_id user_id interaction_id i
           (take (nat truncate_from) bs @
            [fresh g ..< fresh g + (length (interaction mi) - nat truncate_from)])
           (stored_as (interaction mi))"
    using m same_messages_holds_chain[OF sm] by simp
  have 3: "\<forall>b \<in> set (take (nat truncate_from) bs). block_props g' b = block_props g b"
  proof
    fix b assume "b \<in> set (take (nat truncate_from) bs)"
    then have "node_of ?g1 b = node_of g b" using m by blast
    then have "block_props ?g1 b = block_props g b" by (simp add: block_props_def)
    then show "block_props g' b = block_props g b" by (simp add: bp)
  qed
  have 4: "\<forall>b \<in> set (drop (nat truncate_from) bs). block_props g' b = None"
  proof
    fix b assume "b \<in> set (drop (nat truncate_from) bs)"
    then have "node_of ?g1 b = None" using m by blast
    then have "block_props ?g1 b = None" by (simp add: block_props_def)
    then show "block_props g' b = None" by (simp add: bp)
  qed
  show ?thesis using 1 2 3 4 by blast
qed

theorem truncate_and_replace_gives_incoming_witness:
  "get_interaction_messages
     (fst (snd (update_interaction_and_memories ''org'' ''agent'' ''u1'' ''i1''
                  (transcript_only [msg_a, msg_b, msg_d, msg_e] 6) recording_add uuid4_demo
                  (db_saved [msg_a, msg_b, msg_c]) [])))
     ''org'' ''u1'' ''i1'' =
   [MessageProps 0 (Some ''user'') (Some ''a''), MessageProps 1 (Some ''assistant'') (Some ''b''),
    MessageProps 2 (Some ''user'') (Some ''d''), MessageProps 3 (Some ''assistant'') (Some ''e'')]"
proof -
  let ?ex = "[MessageProps 0 (Some ''user'') (Some ''a''),
              MessageProps 1 (Some ''assistant'') (Some ''b''),
              MessageProps 2 (Some ''user'') (Some ''c'')]"
  let ?mi = "transcript_only [msg_a, msg_b, msg_d, msg_e] 6"
  let ?r = "update_interaction_and_memories ''org'' ''agent'' ''u1'' ''i1'' ?mi recording_add
              uuid4_demo (db_saved [msg_a, msg_b, msg_c]) []"
  have h: "holds_chain (db_saved [msg_a, msg_b, msg_c]) ''org'' ''u1'' ''i1'' 7 [11, 13, 14] ?ex"
    by code_simp
  have w: "wf_graph (db_saved [msg_a, msg_b, msg_c])" by code_simp
  have t: "compute_truncate_from ?ex (interaction ?mi) = Inr 2" by code_simp
  have r: "fst ?r = Inr (''i1'', DateTime 6 0)" by code_simp
  have ok: "?r = (Inr (''i1'', DateTime 6 0), fst (snd ?r), snd (snd ?r))"
    using r by (metis prod.collapse)
  have s: "stored_as (interaction ?mi) =
   [MessageProps 0 (Some ''user'') (Some ''a''), MessageProps 1 (Some ''assistant'') (Some ''b''),
    MessageProps 2 (Some ''user'') (Some ''d''), MessageProps 3 (Some ''assistant'') (Some ''e'')]"
    by code_simp
  have p: "(0::int) < 2" by simp
  show ?thesis using truncate_and_replace_gives_incoming[OF h w t p ok] s by simp
qed

end
